theory Spec2Isabelle
  imports Main "HOL-Library.Word"
begin

section \<open>QWaitCondition on Unix: data model\<close>

text \<open>
  The development follows \<^verbatim>\<open>src/corelib/thread/qwaitcondition_unix.cpp\<close>.

  \<^item> \<^verbatim>\<open>QWaitConditionPrivate\<close> holds a pthread mutex, a pthread condition variable
    and the two counters \<^verbatim>\<open>int waiters\<close> and \<^verbatim>\<open>int wakeups\<close>. The two pthread
    objects are operating-system handles: the model records every call made on them, in
    order, in the field \<open>calls\<close>; the counters are the fields \<open>waiters\<close> and
    \<open>wakeups\<close>.
  \<^item> The counters are C++ \<^verbatim>\<open>int\<close>. They are modelled as unbounded integers: signed
    overflow is undefined in C++ (there is no wrap-around to write out), and it needs
    \<open>2^31 - 1\<close> threads parked in the same condition variable.
  \<^item> The return code of each pthread call is an input of the model (type \<open>code\<close>,
    \<open>0\<close> for success), so that every \<^verbatim>\<open>report_error\<close> of the source is a branch.
  \<^item> \<^verbatim>\<open>qErrnoWarning\<close> and \<^verbatim>\<open>qWarning\<close> write to the diagnostic sink: the field
    \<open>diagnostics\<close>.
  \<^item> Of the platform branches the generic one is modelled (neither
    \<^verbatim>\<open>Q_OS_ANDROID\<close> nor \<^verbatim>\<open>Q_OS_DARWIN\<close>): the blocking primitive is
    \<^verbatim>\<open>pthread_cond_timedwait\<close> with the absolute time of the deadline, or
    \<^verbatim>\<open>pthread_cond_wait\<close> for an unbounded wait.
\<close>

type_synonym code = int

text \<open>\<^verbatim>\<open>ETIMEDOUT\<close> comes from \<^verbatim>\<open>errno.h\<close>; the value is the one of Linux.\<close>

definition ETIMEDOUT :: code where
  "ETIMEDOUT = 110"

text \<open>
  Modelled from the spec: \<^verbatim>\<open>QDeadlineTimer\<close> is declared outside the sources at hand.
  The spec describes a deadline as ``an opaque point in time or unbounded sentinel'' that
  exposes ``is this deadline unbounded?''. \<open>Forever\<close> is
  \<^verbatim>\<open>QDeadlineTimer(QDeadlineTimer::Forever)\<close>. \<open>Msecs n\<close> stands for the value that the
  constructor call \<^verbatim>\<open>QDeadlineTimer(n)\<close> builds from a number \<open>n\<close> of milliseconds. The
  parameter of that constructor is a signed 64-bit integer (\<^verbatim>\<open>qint64\<close>), so \<open>n\<close> is an
  integer: for \<open>n \<ge> 0\<close> the value is a deadline that many milliseconds from now. What the
  constructor makes of a negative \<open>n\<close> is decided outside the sources at hand; the model
  keeps the number. That \<open>isForever\<close> is false for it, as for every value built from a
  number, is an assumption of the model.
\<close>

datatype QDeadlineTimer = Forever | Msecs int

fun isForever :: "QDeadlineTimer \<Rightarrow> bool" where
  "isForever Forever = True"
| "isForever (Msecs n) = False"

text \<open>
  Modelled from the spec: \<^verbatim>\<open>QReadWriteLock\<close> is declared outside the sources at hand.
  The spec lists the four answers of its state query, \<^verbatim>\<open>stateForWaitCondition()\<close> in the
  code. The read-write lock itself is an external collaborator: a lock argument is its
  address together with the state it reports.
\<close>

datatype StateForWaitCondition = LockedForRead | LockedForWrite | Unlocked | RecursivelyLocked

type_synonym addr = nat

text \<open>The calls the code makes on the pthread objects and on the caller's lock.\<close>

datatype call =
    pthread_mutex_init
  | pthread_condattr_init
  | pthread_condattr_setclock
  | pthread_cond_init
  | pthread_condattr_destroy
  | pthread_mutex_lock
  | pthread_mutex_unlock
  | pthread_cond_wait
  | pthread_cond_timedwait QDeadlineTimer
  | pthread_cond_signal
  | pthread_cond_broadcast
  | QMutex_unlock addr
  | QMutex_lock addr
  | QReadWriteLock_unlock addr
  | QReadWriteLock_lockForRead addr
  | QReadWriteLock_lockForWrite addr

datatype diagnostic =
    qErrnoWarning code string
  | qWarning string

record state =
  waiters :: int
  wakeups :: int
  calls :: "call list"
  diagnostics :: "diagnostic list"

text \<open>
  Modelled from the spec: the macro \<^verbatim>\<open>Q_ASSERT_X(cond, where, what)\<close> is declared outside
  the sources at hand. The spec calls an internal consistency violation ``deliberately
  fatal'': it ``should assert/abort rather than silently continue''. So a failed
  assertion ends the call, with the value \<open>Inl (Q_ASSERT_X where what)\<close>.
\<close>

datatype fault = Q_ASSERT_X string string

section \<open>The operations\<close>

definition invoke :: "call \<Rightarrow> state \<Rightarrow> state" where
  "invoke c s = s\<lparr>calls := calls s @ [c]\<rparr>"

definition report_error :: "code \<Rightarrow> string \<Rightarrow> string \<Rightarrow> state \<Rightarrow> state" where
  "report_error code wher what s =
     (if code \<noteq> 0
      then s\<lparr>diagnostics := diagnostics s @ [qErrnoWarning code (wher @ '': '' @ what @ '' failure'')]\<rparr>
      else s)"

text \<open>\<^verbatim>\<open>qt_initialize_pthread_cond(cond, where)\<close>; \<open>rc\<close> is what \<^verbatim>\<open>pthread_cond_init\<close> returns.\<close>

definition qt_initialize_pthread_cond :: "code \<Rightarrow> string \<Rightarrow> state \<Rightarrow> state" where
  "qt_initialize_pthread_cond rc wher s0 =
     (let s1 = invoke pthread_condattr_init s0;
          s2 = invoke pthread_condattr_setclock s1;
          s3 = report_error rc wher ''cv init'' (invoke pthread_cond_init s2)
      in invoke pthread_condattr_destroy s3)"

text \<open>
  The constructor \<^verbatim>\<open>QWaitCondition::QWaitCondition()\<close>; \<open>rc_mutex\<close> and \<open>rc_cond\<close> are
  the return codes of the two initialisations.
\<close>

definition QWaitCondition :: "code \<Rightarrow> code \<Rightarrow> state" where
  "QWaitCondition rc_mutex rc_cond =
     (let s0 = \<lparr>waiters = 0, wakeups = 0, calls = [], diagnostics = []\<rparr>;
          s1 = report_error rc_mutex ''QWaitCondition'' ''mutex init'' (invoke pthread_mutex_init s0);
          s2 = qt_initialize_pthread_cond rc_cond ''QWaitCondition'' s1
      in s2\<lparr>waiters := 0, wakeups := 0\<rparr>)"

text \<open>
  \<^verbatim>\<open>QWaitCondition::wakeOne()\<close> and \<^verbatim>\<open>QWaitCondition::wakeAll()\<close>. The three codes are
  the return codes of the lock, of the signal or broadcast, and of the unlock.
\<close>

definition wakeOne :: "code \<Rightarrow> code \<Rightarrow> code \<Rightarrow> state \<Rightarrow> state" where
  "wakeOne rc_lock rc_signal rc_unlock s0 =
     (let s1 = report_error rc_lock ''QWaitCondition::wakeOne()'' ''mutex lock''
                 (invoke pthread_mutex_lock s0);
          s2 = s1\<lparr>wakeups := min (wakeups s1 + 1) (waiters s1)\<rparr>;
          s3 = report_error rc_signal ''QWaitCondition::wakeOne()'' ''cv signal''
                 (invoke pthread_cond_signal s2)
      in report_error rc_unlock ''QWaitCondition::wakeOne()'' ''mutex unlock''
           (invoke pthread_mutex_unlock s3))"

definition wakeAll :: "code \<Rightarrow> code \<Rightarrow> code \<Rightarrow> state \<Rightarrow> state" where
  "wakeAll rc_lock rc_broadcast rc_unlock s0 =
     (let s1 = report_error rc_lock ''QWaitCondition::wakeAll()'' ''mutex lock''
                 (invoke pthread_mutex_lock s0);
          s2 = s1\<lparr>wakeups := waiters s1\<rparr>;
          s3 = report_error rc_broadcast ''QWaitCondition::wakeAll()'' ''cv broadcast''
                 (invoke pthread_cond_broadcast s2)
      in report_error rc_unlock ''QWaitCondition::wakeAll()'' ''mutex unlock''
           (invoke pthread_mutex_unlock s3))"

subsection \<open>The blocking primitive\<close>

text \<open>
  \<^verbatim>\<open>pthread_cond_wait\<close> and \<^verbatim>\<open>pthread_cond_timedwait\<close> release the internal mutex,
  suspend the thread and take the mutex again before they return. What the thread finds
  on return is an input: the return code, and the counters as the other threads left
  them while it was suspended.
\<close>

record os_return =
  rc :: code
  waiters_now :: int
  wakeups_now :: int

definition resume :: "os_return \<Rightarrow> state \<Rightarrow> state" where
  "resume r s = s\<lparr>waiters := waiters_now r, wakeups := wakeups_now r\<rparr>"

text \<open>\<^verbatim>\<open>QWaitConditionPrivate::wait_relative\<close>: the call of the timed primitive.\<close>

definition wait_relative :: "QDeadlineTimer \<Rightarrow> state \<Rightarrow> state" where
  "wait_relative deadline s = invoke (pthread_cond_timedwait deadline) s"

text \<open>The call the loop of \<^verbatim>\<open>QWaitConditionPrivate::wait\<close> makes in each iteration.\<close>

definition block :: "QDeadlineTimer \<Rightarrow> state \<Rightarrow> state" where
  "block deadline s =
     (if \<not> isForever deadline then wait_relative deadline s else invoke pthread_cond_wait s)"

text \<open>
  The \<^verbatim>\<open>forever\<close> loop of \<^verbatim>\<open>QWaitConditionPrivate::wait\<close>. The list holds what the
  primitive returns, call after call. When it is used up the thread stays suspended in the
  primitive: the loop does not return, which is the value \<open>None\<close>.
\<close>

fun wait_loop :: "QDeadlineTimer \<Rightarrow> os_return list \<Rightarrow> state \<Rightarrow> (code \<times> state) option" where
  "wait_loop deadline [] s = None"
| "wait_loop deadline (r # rs) s =
     (let s1 = resume r (block deadline s);
          code = rc r
      in if code = 0 \<and> wakeups s1 = 0
         then wait_loop deadline rs s1
         else Some (code, s1))"

text \<open>
  The rest of \<^verbatim>\<open>QWaitConditionPrivate::wait\<close>, after the loop: the two assertions, the
  decrements, the unlock of the internal mutex (\<open>rc_unlock\<close> is its return code) and the
  report of a failure of the primitive.
\<close>

definition wait_finish :: "code \<Rightarrow> code \<Rightarrow> state \<Rightarrow> fault + bool \<times> state" where
  "wait_finish code rc_unlock s0 =
     (if \<not> waiters s0 > 0
      then Inl (Q_ASSERT_X ''QWaitCondition::wait'' ''internal error (waiters)'')
      else
        let s1 = s0\<lparr>waiters := waiters s0 - 1\<rparr> in
        if code = 0 \<and> \<not> wakeups s1 > 0
        then Inl (Q_ASSERT_X ''QWaitCondition::wait'' ''internal error (wakeups)'')
        else
          let s2 = (if code = 0 then s1\<lparr>wakeups := wakeups s1 - 1\<rparr> else s1);
              s3 = report_error rc_unlock ''QWaitCondition::wait()'' ''mutex unlock''
                     (invoke pthread_mutex_unlock s2);
              s4 = (if code \<noteq> 0 \<and> code \<noteq> ETIMEDOUT
                    then report_error code ''QWaitCondition::wait()'' ''cv wait'' s3
                    else s3)
          in Inr (code = 0, s4))"

definition QWaitConditionPrivate_wait ::
  "QDeadlineTimer \<Rightarrow> os_return list \<Rightarrow> code \<Rightarrow> state \<Rightarrow> (fault + bool \<times> state) option" where
  "QWaitConditionPrivate_wait deadline rs rc_unlock s =
     (case wait_loop deadline rs s of
        None \<Rightarrow> None
      | Some (code, s1) \<Rightarrow> Some (wait_finish code rc_unlock s1))"

subsection \<open>The public wait functions\<close>

text \<open>
  What the operating system answers during one call of \<^verbatim>\<open>wait\<close>: the return code of
  the lock of the internal mutex, the returns of the blocking primitive, and the return
  code of the unlock of the internal mutex.
\<close>

record os_answers =
  rc_lock :: code
  returns :: "os_return list"
  rc_unlock :: code

text \<open>
  Lines 178 to 180 and 208 to 211: lock the internal mutex, count the thread as a waiter,
  release the caller's lock.
\<close>

definition enter_QMutex :: "addr \<Rightarrow> code \<Rightarrow> state \<Rightarrow> state" where
  "enter_QMutex mutex rcl s0 =
     (let s1 = report_error rcl ''QWaitCondition::wait()'' ''mutex lock''
                 (invoke pthread_mutex_lock s0);
          s2 = s1\<lparr>waiters := waiters s1 + 1\<rparr>
      in invoke (QMutex_unlock mutex) s2)"

definition enter_QReadWriteLock :: "addr \<Rightarrow> code \<Rightarrow> state \<Rightarrow> state" where
  "enter_QReadWriteLock readWriteLock rcl s0 =
     (let s1 = report_error rcl ''QWaitCondition::wait()'' ''mutex lock''
                 (invoke pthread_mutex_lock s0);
          s2 = s1\<lparr>waiters := waiters s1 + 1\<rparr>
      in invoke (QReadWriteLock_unlock readWriteLock) s2)"

text \<open>Lines 215 to 218: take the read-write lock again, as it was held.\<close>

definition relock_QReadWriteLock :: "addr \<Rightarrow> StateForWaitCondition \<Rightarrow> state \<Rightarrow> state" where
  "relock_QReadWriteLock readWriteLock previousState s =
     (if previousState = LockedForWrite
      then invoke (QReadWriteLock_lockForWrite readWriteLock) s
      else invoke (QReadWriteLock_lockForRead readWriteLock) s)"

text \<open>
  \<^verbatim>\<open>bool QWaitCondition::wait(QMutex *mutex, QDeadlineTimer deadline)\<close>. A null pointer is
  \<open>None\<close>. The result is \<open>None\<close> when the call never returns, \<open>Some (Inl f)\<close> when
  an assertion fails, and \<open>Some (Inr (b, s))\<close> when it returns \<open>b\<close> in state \<open>s\<close>.
\<close>

definition wait_QMutex ::
  "addr option \<Rightarrow> QDeadlineTimer \<Rightarrow> os_answers \<Rightarrow> state \<Rightarrow> (fault + bool \<times> state) option" where
  "wait_QMutex mutex deadline os s0 =
     (case mutex of
        None \<Rightarrow> Some (Inr (False, s0))
      | Some m \<Rightarrow>
          (case QWaitConditionPrivate_wait deadline (returns os) (rc_unlock os)
                  (enter_QMutex m (rc_lock os) s0) of
             None \<Rightarrow> None
           | Some (Inl f) \<Rightarrow> Some (Inl f)
           | Some (Inr (returnValue, s1)) \<Rightarrow> Some (Inr (returnValue, invoke (QMutex_lock m) s1))))"

text \<open>\<^verbatim>\<open>bool QWaitCondition::wait(QReadWriteLock *readWriteLock, QDeadlineTimer deadline)\<close>.\<close>

definition wait_QReadWriteLock ::
  "(addr \<times> StateForWaitCondition) option \<Rightarrow> QDeadlineTimer \<Rightarrow> os_answers \<Rightarrow> state
     \<Rightarrow> (fault + bool \<times> state) option" where
  "wait_QReadWriteLock readWriteLock deadline os s0 =
     (case readWriteLock of
        None \<Rightarrow> Some (Inr (False, s0))
      | Some (l, previousState) \<Rightarrow>
          if previousState = Unlocked then Some (Inr (False, s0))
          else if previousState = RecursivelyLocked
          then Some (Inr (False, s0\<lparr>diagnostics := diagnostics s0 @
                 [qWarning ''QWaitCondition: cannot wait on QReadWriteLocks with recursive lockForWrite()'']\<rparr>))
          else
            (case QWaitConditionPrivate_wait deadline (returns os) (rc_unlock os)
                    (enter_QReadWriteLock l (rc_lock os) s0) of
               None \<Rightarrow> None
             | Some (Inl f) \<Rightarrow> Some (Inl f)
             | Some (Inr (returnValue, s1)) \<Rightarrow>
                 Some (Inr (returnValue, relock_QReadWriteLock l previousState s1))))"

text \<open>
  The overloads that take \<^verbatim>\<open>unsigned long time\<close>, a number of milliseconds. The width of
  \<^verbatim>\<open>unsigned long\<close> depends on the platform and is left open (\<open>'a word\<close>);
  \<^verbatim>\<open>std::numeric_limits<unsigned long>::max()\<close> is the word \<open>- 1\<close>, all bits set.

  The call \<^verbatim>\<open>QDeadlineTimer(time)\<close> hands the \<^verbatim>\<open>unsigned long\<close> to the signed 64-bit
  parameter of the constructor. \<open>to_qint64\<close> is that implicit conversion of C++: the
  value modulo \<open>2^64\<close>, read as two's complement.
\<close>

definition to_qint64 :: "'a::len word \<Rightarrow> int" where
  "to_qint64 time = sint (ucast time :: 64 word)"

definition wait_QMutex_time ::
  "addr option \<Rightarrow> 'a::len word \<Rightarrow> os_answers \<Rightarrow> state \<Rightarrow> (fault + bool \<times> state) option" where
  "wait_QMutex_time mutex time os s =
     (if time = - 1 then wait_QMutex mutex Forever os s
      else wait_QMutex mutex (Msecs (to_qint64 time)) os s)"

definition wait_QReadWriteLock_time ::
  "(addr \<times> StateForWaitCondition) option \<Rightarrow> 'a::len word \<Rightarrow> os_answers \<Rightarrow> state
     \<Rightarrow> (fault + bool \<times> state) option" where
  "wait_QReadWriteLock_time readWriteLock time os s =
     (if time = - 1 then wait_QReadWriteLock readWriteLock Forever os s
      else wait_QReadWriteLock readWriteLock (Msecs (to_qint64 time)) os s)"

section \<open>Threads: the condition variable shared\<close>

text \<open>
  Several threads use one condition variable. Everything a thread does to the counters
  happens while it holds the internal mutex, and a thread gives the mutex up inside
  \<^verbatim>\<open>wait\<close> only within the blocking primitive. The code between two such points is
  therefore one step of the system:
  \<^item> a call of \<^verbatim>\<open>wakeOne\<close> or of \<^verbatim>\<open>wakeAll\<close>;
  \<^item> a call of \<^verbatim>\<open>wait\<close> up to the point where the thread is suspended in the
    primitive (or up to its return, when a precondition check fails);
  \<^item> the return of the primitive in a suspended thread, with some code, up to the next
    suspension (the spurious case) or up to the return of \<^verbatim>\<open>wait\<close>.
  The model puts no condition on when the primitive returns, nor on the code: POSIX allows
  spurious wakeups, and a timeout may be reported to a thread after another thread has
  signalled, since the thread has to take the internal mutex again first.

  In the system the fields \<open>calls\<close> and \<open>diagnostics\<close> of \<open>cv\<close> collect what all threads
  do, in the order of the steps. The last call of a wait, the reacquisition of the caller's
  lock, comes after the unlock of the internal mutex; it touches no counter and is put
  into the step that ends the wait. \<open>results\<close> lists the calls of wait that have returned,
  with the value returned.
\<close>

type_synonym tid = nat

text \<open>What a suspended call of \<^verbatim>\<open>wait\<close> remembers: the caller's lock and the deadline.\<close>

datatype held = HeldQMutex addr | HeldQReadWriteLock addr StateForWaitCondition

record system =
  cv :: state
  parked :: "(tid \<times> held \<times> QDeadlineTimer) list"
  results :: "(tid \<times> bool) list"

datatype event =
    WakeOne tid code code code
  | WakeAll tid code code code
  | WaitQMutex tid "addr option" QDeadlineTimer code
  | WaitQReadWriteLock tid "(addr \<times> StateForWaitCondition) option" QDeadlineTimer code
  | Return tid code code

text \<open>
  \<open>Impossible\<close>: the event cannot happen in the state (a suspended thread calls nothing;
  the primitive returns only in a suspended thread). \<open>Abort\<close>: an assertion failed.
\<close>

datatype outcome = Ok system | Abort fault | Impossible

definition is_parked :: "tid \<Rightarrow> system \<Rightarrow> bool" where
  "is_parked t S \<longleftrightarrow> map_of (parked S) t \<noteq> None"

definition relock :: "held \<Rightarrow> state \<Rightarrow> state" where
  "relock h s =
     (case h of
        HeldQMutex m \<Rightarrow> invoke (QMutex_lock m) s
      | HeldQReadWriteLock l previousState \<Rightarrow> relock_QReadWriteLock l previousState s)"

fun step :: "event \<Rightarrow> system \<Rightarrow> outcome" where
  "step (WakeOne t a b c) S =
     (if is_parked t S then Impossible else Ok (S\<lparr>cv := wakeOne a b c (cv S)\<rparr>))"
| "step (WakeAll t a b c) S =
     (if is_parked t S then Impossible else Ok (S\<lparr>cv := wakeAll a b c (cv S)\<rparr>))"
| "step (WaitQMutex t mutex deadline rcl) S =
     (if is_parked t S then Impossible
      else case mutex of
        None \<Rightarrow> Ok (S\<lparr>results := results S @ [(t, False)]\<rparr>)
      | Some m \<Rightarrow>
          Ok (S\<lparr>cv := block deadline (enter_QMutex m rcl (cv S)),
                parked := parked S @ [(t, HeldQMutex m, deadline)]\<rparr>))"
| "step (WaitQReadWriteLock t readWriteLock deadline rcl) S =
     (if is_parked t S then Impossible
      else case readWriteLock of
        None \<Rightarrow> Ok (S\<lparr>results := results S @ [(t, False)]\<rparr>)
      | Some (l, previousState) \<Rightarrow>
          if previousState = Unlocked then Ok (S\<lparr>results := results S @ [(t, False)]\<rparr>)
          else if previousState = RecursivelyLocked
          then Ok (S\<lparr>cv := (cv S)\<lparr>diagnostics := diagnostics (cv S) @
                 [qWarning ''QWaitCondition: cannot wait on QReadWriteLocks with recursive lockForWrite()'']\<rparr>,
                 results := results S @ [(t, False)]\<rparr>)
          else
            Ok (S\<lparr>cv := block deadline (enter_QReadWriteLock l rcl (cv S)),
                  parked := parked S @ [(t, HeldQReadWriteLock l previousState, deadline)]\<rparr>))"
| "step (Return t code rcu) S =
     (case map_of (parked S) t of
        None \<Rightarrow> Impossible
      | Some (h, deadline) \<Rightarrow>
          if code = 0 \<and> wakeups (cv S) = 0
          then Ok (S\<lparr>cv := block deadline (cv S)\<rparr>)
          else
            (case wait_finish code rcu (cv S) of
               Inl f \<Rightarrow> Abort f
             | Inr (returnValue, s1) \<Rightarrow>
                 Ok (S\<lparr>cv := relock h s1,
                       parked := filter (\<lambda>p. fst p \<noteq> t) (parked S),
                       results := results S @ [(t, returnValue)]\<rparr>)))"

fun run :: "event list \<Rightarrow> system \<Rightarrow> outcome" where
  "run [] S = Ok S"
| "run (e # es) S =
     (case step e S of
        Ok S' \<Rightarrow> run es S'
      | Abort f \<Rightarrow> Abort f
      | Impossible \<Rightarrow> Impossible)"

text \<open>The system after the constructor: no thread is suspended, no call has returned.\<close>

definition constructed :: "code \<Rightarrow> code \<Rightarrow> system" where
  "constructed rc_mutex rc_cond = \<lparr>cv = QWaitCondition rc_mutex rc_cond, parked = [], results = []\<rparr>"

text \<open>The two counters of an outcome, \<open>(waiters, wakeups)\<close>, when the run went through.\<close>

fun counters :: "outcome \<Rightarrow> (int \<times> int) option" where
  "counters (Ok S) = Some (waiters (cv S), wakeups (cv S))"
| "counters (Abort f) = None"
| "counters Impossible = None"

section \<open>Vocabulary of the statements\<close>

text \<open>
  A return of the primitive is spurious when it reports success and no wakeup is pending:
  the test \<^verbatim>\<open>code == 0 && wakeups == 0\<close> of the loop.
\<close>

definition spurious :: "os_return \<Rightarrow> bool" where
  "spurious r \<longleftrightarrow> rc r = 0 \<and> wakeups_now r = 0"

text \<open>The call of the primitive that \<open>block\<close> records for a deadline.\<close>

definition primitive :: "QDeadlineTimer \<Rightarrow> call" where
  "primitive deadline = (if isForever deadline then pthread_cond_wait else pthread_cond_timedwait deadline)"

text \<open>
  The accounting that holds in every state the system reaches: no thread is suspended
  twice, \<open>waiters\<close> counts the suspended threads, and \<open>wakeups\<close> is not negative.
\<close>

definition accounted :: "system \<Rightarrow> bool" where
  "accounted S \<longleftrightarrow>
     distinct (map fst (parked S)) \<and> waiters (cv S) = int (length (parked S)) \<and> 0 \<le> wakeups (cv S)"

text \<open>The events in which a call of \<^verbatim>\<open>wait\<close> ends with a code other than success.\<close>

fun failing_return :: "event \<Rightarrow> bool" where
  "failing_return (Return t code rcu) = (code \<noteq> 0)"
| "failing_return (WakeOne t a b c) = False"
| "failing_return (WakeAll t a b c) = False"
| "failing_return (WaitQMutex t mutex deadline rcl) = False"
| "failing_return (WaitQReadWriteLock t readWriteLock deadline rcl) = False"

text \<open>
  How a public wait function passes on the result of \<^verbatim>\<open>QWaitConditionPrivate::wait\<close>:
  when that call returns, \<open>leave\<close> (taking the caller's lock again) is applied to the state.
\<close>

definition passed ::
  "(state \<Rightarrow> state) \<Rightarrow> (fault + bool \<times> state) option \<Rightarrow> (fault + bool \<times> state) option" where
  "passed leave res =
     (case res of
        None \<Rightarrow> None
      | Some (Inl f) \<Rightarrow> Some (Inl f)
      | Some (Inr (b, s1)) \<Rightarrow> Some (Inr (b, leave s1)))"

text \<open>
  The view of one thread in a run of the system. While thread \<open>t\<close> is suspended in wait,
  the run goes on in segments: events of other threads, then a return of the primitive in
  \<open>t\<close> with some code. \<open>interleaved\<close> is that run; \<open>found\<close> lists what \<open>t\<close> finds at
  each of its returns, the code and the counters as the other threads left them: the
  input of the wait functions above.
\<close>

fun caller :: "event \<Rightarrow> tid" where
  "caller (WakeOne t a b c) = t"
| "caller (WakeAll t a b c) = t"
| "caller (WaitQMutex t mutex deadline rcl) = t"
| "caller (WaitQReadWriteLock t readWriteLock deadline rcl) = t"
| "caller (Return t code rcu) = t"

fun interleaved :: "tid \<Rightarrow> code \<Rightarrow> (event list \<times> code) list \<Rightarrow> event list" where
  "interleaved t rcu [] = []"
| "interleaved t rcu ((evs, c) # segs) = evs @ Return t c rcu # interleaved t rcu segs"

fun found :: "tid \<Rightarrow> code \<Rightarrow> (event list \<times> code) list \<Rightarrow> system \<Rightarrow> os_return list" where
  "found t rcu [] S = []"
| "found t rcu ((evs, c) # segs) S =
     (case run evs S of
        Ok S1 \<Rightarrow>
          \<lparr>rc = c, waiters_now = waiters (cv S1), wakeups_now = wakeups (cv S1)\<rparr> #
          (case step (Return t c rcu) S1 of
             Ok S2 \<Rightarrow> found t rcu segs S2
           | Abort f \<Rightarrow> []
           | Impossible \<Rightarrow> [])
      | Abort f \<Rightarrow> []
      | Impossible \<Rightarrow> [])"

section \<open>Facts about the single operations\<close>

lemmas local_defs =
  QWaitCondition_def qt_initialize_pthread_cond_def wakeOne_def wakeAll_def
  enter_QMutex_def enter_QReadWriteLock_def block_def wait_relative_def wait_finish_def ETIMEDOUT_def
  relock_QReadWriteLock_def report_error_def invoke_def resume_def Let_def
  wait_QMutex_def wait_QReadWriteLock_def QWaitConditionPrivate_wait_def

lemmas model_defs =
  constructed_def QWaitCondition_def qt_initialize_pthread_cond_def is_parked_def wakeOne_def wakeAll_def
  enter_QMutex_def enter_QReadWriteLock_def block_def wait_relative_def wait_finish_def ETIMEDOUT_def
  relock_def relock_QReadWriteLock_def report_error_def invoke_def resume_def Let_def

lemma report_error_counters [simp]:
  "waiters (report_error c w x s) = waiters s"
  "wakeups (report_error c w x s) = wakeups s"
  "calls (report_error c w x s) = calls s"
  by (simp_all add: report_error_def)

lemma invoke_fields [simp]:
  "waiters (invoke c s) = waiters s"
  "wakeups (invoke c s) = wakeups s"
  "calls (invoke c s) = calls s @ [c]"
  "diagnostics (invoke c s) = diagnostics s"
  by (simp_all add: invoke_def)

lemma block_fields [simp]:
  "waiters (block d s) = waiters s"
  "wakeups (block d s) = wakeups s"
  "calls (block d s) = calls s @ [primitive d]"
  "diagnostics (block d s) = diagnostics s"
  by (simp_all add: block_def wait_relative_def primitive_def)

lemma resume_fields [simp]:
  "waiters (resume r s) = waiters_now r"
  "wakeups (resume r s) = wakeups_now r"
  "calls (resume r s) = calls s"
  "diagnostics (resume r s) = diagnostics s"
  by (simp_all add: resume_def)

lemma enter_QMutex_fields [simp]:
  "waiters (enter_QMutex m rcl s) = waiters s + 1"
  "wakeups (enter_QMutex m rcl s) = wakeups s"
  "calls (enter_QMutex m rcl s) = calls s @ [pthread_mutex_lock, QMutex_unlock m]"
  by (simp_all add: enter_QMutex_def Let_def)

lemma enter_QReadWriteLock_fields [simp]:
  "waiters (enter_QReadWriteLock l rcl s) = waiters s + 1"
  "wakeups (enter_QReadWriteLock l rcl s) = wakeups s"
  "calls (enter_QReadWriteLock l rcl s) = calls s @ [pthread_mutex_lock, QReadWriteLock_unlock l]"
  by (simp_all add: enter_QReadWriteLock_def Let_def)

lemma relock_fields [simp]:
  "waiters (relock h s) = waiters s"
  "wakeups (relock h s) = wakeups s"
  by (simp_all add: relock_def relock_QReadWriteLock_def split: held.splits)

lemma QWaitCondition_fields [simp]:
  "waiters (QWaitCondition a b) = 0"
  "wakeups (QWaitCondition a b) = 0"
  by (simp_all add: QWaitCondition_def Let_def)

lemma wakeOne_fields:
  "wakeups (wakeOne a b c s) = min (wakeups s + 1) (waiters s)"
  "waiters (wakeOne a b c s) = waiters s"
  "calls (wakeOne a b c s) = calls s @ [pthread_mutex_lock, pthread_cond_signal, pthread_mutex_unlock]"
  by (simp_all add: wakeOne_def Let_def)

lemma wakeAll_fields:
  "wakeups (wakeAll a b c s) = waiters s"
  "waiters (wakeAll a b c s) = waiters s"
  "calls (wakeAll a b c s) = calls s @ [pthread_mutex_lock, pthread_cond_broadcast, pthread_mutex_unlock]"
  by (simp_all add: wakeAll_def Let_def)

text \<open>The end of \<^verbatim>\<open>QWaitConditionPrivate::wait\<close>: when it goes through, and what it does then.\<close>

lemma wait_finish_Inr:
  "0 < waiters s \<Longrightarrow> code = 0 \<longrightarrow> 0 < wakeups s \<Longrightarrow>
   \<exists>s1. wait_finish code rcu s = Inr (code = 0, s1) \<and> waiters s1 = waiters s - 1
     \<and> wakeups s1 = (if code = 0 then wakeups s - 1 else wakeups s)
     \<and> calls s1 = calls s @ [pthread_mutex_unlock]"
  by (auto simp add: wait_finish_def Let_def)

lemma wait_finish_InrD:
  "wait_finish code rcu s = Inr (b, s1) \<Longrightarrow>
   0 < waiters s \<and> (code = 0 \<longrightarrow> 0 < wakeups s) \<and> b = (code = 0) \<and> waiters s1 = waiters s - 1
     \<and> wakeups s1 = (if code = 0 then wakeups s - 1 else wakeups s)
     \<and> calls s1 = calls s @ [pthread_mutex_unlock]"
  by (auto simp add: wait_finish_def Let_def split: if_splits)

text \<open>What is written to the diagnostic sink.\<close>

lemma report_error_diagnostics:
  "diagnostics (report_error c w x s) =
     diagnostics s @ (if c \<noteq> 0 then [qErrnoWarning c (w @ '': '' @ x @ '' failure'')] else [])"
  by (simp add: report_error_def)

lemma wait_finish_diagnostics:
  "wait_finish code rcu s = Inr (b, s1) \<Longrightarrow>
   diagnostics s1 = diagnostics s
     @ (if rcu \<noteq> 0 then [qErrnoWarning rcu ''QWaitCondition::wait(): mutex unlock failure''] else [])
     @ (if code \<noteq> 0 \<and> code \<noteq> ETIMEDOUT
        then [qErrnoWarning code ''QWaitCondition::wait(): cv wait failure''] else [])"
  by (auto simp add: wait_finish_def Let_def report_error_diagnostics split: if_splits)

section \<open>The loop: spurious returns are skipped\<close>

lemma wait_loop_spurious:
  "spurious r \<Longrightarrow> wait_loop d (r # rs) s = wait_loop d rs (resume r (block d s))"
  by (simp add: spurious_def Let_def)

lemma wait_loop_real:
  "\<not> spurious r \<Longrightarrow> wait_loop d (r # rs) s = Some (rc r, resume r (block d s))"
  by (auto simp add: spurious_def Let_def)

lemma wait_loop_None:
  "wait_loop d rs s = None \<longleftrightarrow> dropWhile spurious rs = []"
  by (induction rs arbitrary: s) (simp_all add: wait_loop_spurious wait_loop_real del: wait_loop.simps(2))

text \<open>
  The loop ends at the first return that is not spurious, with the counters found there,
  after one call of the primitive for each return it went through.
\<close>

lemma wait_loop_eq:
  "dropWhile spurious rs = r # rest \<Longrightarrow>
   wait_loop d rs s =
     Some (rc r, s\<lparr>waiters := waiters_now r, wakeups := wakeups_now r,
             calls := calls s @ replicate (Suc (length (takeWhile spurious rs))) (primitive d)\<rparr>)"
proof (induction rs arbitrary: s)
  case Nil
  then show ?case by simp
next
  case (Cons a rs)
  show ?case
  proof (cases "spurious a")
    case True
    with Cons.prems have "dropWhile spurious rs = r # rest" by simp
    from Cons.IH [OF this, of "resume a (block d s)"] True show ?thesis
      by (simp add: wait_loop_spurious resume_def block_def wait_relative_def invoke_def
          primitive_def del: wait_loop.simps(2))
  next
    case False
    with Cons.prems have "a = r" by simp
    with False show ?thesis
      by (simp add: wait_loop_real resume_def block_def wait_relative_def invoke_def primitive_def
          del: wait_loop.simps(2))
  qed
qed

lemma split_at_first_real:
  "dropWhile spurious rs = r # rest \<longleftrightarrow>
     (\<exists>pre. rs = pre @ r # rest \<and> list_all spurious pre \<and> \<not> spurious r)"
proof
  assume d: "dropWhile spurious rs = r # rest"
  then have "rs = takeWhile spurious rs @ r # rest" and "\<not> spurious r"
    by (simp_all add: dropWhile_eq_Cons_conv)
  moreover have "list_all spurious (takeWhile spurious rs)"
    by (auto simp add: list_all_iff dest: set_takeWhileD)
  ultimately show "\<exists>pre. rs = pre @ r # rest \<and> list_all spurious pre \<and> \<not> spurious r"
    by blast
next
  assume "\<exists>pre. rs = pre @ r # rest \<and> list_all spurious pre \<and> \<not> spurious r"
  then obtain pre where "rs = pre @ r # rest" and "\<forall>x\<in>set pre. spurious x" and "\<not> spurious r"
    by (auto simp add: list_all_iff)
  then show "dropWhile spurious rs = r # rest"
    by (simp add: dropWhile_append2)
qed

lemma takeWhile_at_first_real:
  "list_all spurious pre \<Longrightarrow> \<not> spurious r \<Longrightarrow> takeWhile spurious (pre @ r # rest) = pre"
  by (simp add: list_all_iff takeWhile_tail)

lemma Private_wait_None:
  "dropWhile spurious rs = [] \<Longrightarrow> QWaitConditionPrivate_wait d rs rcu s = None"
  using wait_loop_None [of d rs s] by (simp add: QWaitConditionPrivate_wait_def)

lemma Private_wait_eq:
  "dropWhile spurious rs = r # rest \<Longrightarrow>
   QWaitConditionPrivate_wait d rs rcu s =
     Some (wait_finish (rc r) rcu
       (s\<lparr>waiters := waiters_now r, wakeups := wakeups_now r,
          calls := calls s @ replicate (Suc (length (takeWhile spurious rs))) (primitive d)\<rparr>))"
  by (simp add: QWaitConditionPrivate_wait_def wait_loop_eq)

lemma Private_wait_returns:
  assumes "QWaitConditionPrivate_wait d rs rcu s = Some (Inr (b, s1))"
  shows "\<exists>r rest. dropWhile spurious rs = r # rest \<and> b = (rc r = 0) \<and> 0 < waiters_now r
     \<and> (rc r = 0 \<longrightarrow> 0 < wakeups_now r)
     \<and> waiters s1 = waiters_now r - 1
     \<and> wakeups s1 = (if rc r = 0 then wakeups_now r - 1 else wakeups_now r)
     \<and> calls s1 = calls s @ replicate (Suc (length (takeWhile spurious rs))) (primitive d) @ [pthread_mutex_unlock]"
proof (cases "dropWhile spurious rs")
  case Nil
  from Private_wait_None [OF this] assms show ?thesis by simp
next
  case (Cons r rest)
  from Private_wait_eq [OF this] assms have "wait_finish (rc r) rcu
            (s\<lparr>waiters := waiters_now r, wakeups := wakeups_now r,
               calls := calls s @ replicate (Suc (length (takeWhile spurious rs))) (primitive d)\<rparr>) = Inr (b, s1)"
    by simp
  from wait_finish_InrD [OF this] Cons show ?thesis by simp
qed

lemma Private_wait_total:
  assumes "dropWhile spurious rs = r # rest" and "0 < waiters_now r" and "rc r = 0 \<longrightarrow> 0 < wakeups_now r"
  shows "\<exists>s1. QWaitConditionPrivate_wait d rs rcu s = Some (Inr (rc r = 0, s1))
     \<and> calls s1 = calls s @ replicate (Suc (length (takeWhile spurious rs))) (primitive d) @ [pthread_mutex_unlock]"
proof -
  let ?s = "s\<lparr>waiters := waiters_now r, wakeups := wakeups_now r,
               calls := calls s @ replicate (Suc (length (takeWhile spurious rs))) (primitive d)\<rparr>"
  from assms have "0 < waiters ?s" and "rc r = 0 \<longrightarrow> 0 < wakeups ?s" by simp_all
  from wait_finish_Inr [OF this, of rcu] Private_wait_eq [OF assms(1), of d rcu s] show ?thesis
    by auto
qed

lemma Private_wait_diagnostics:
  assumes "QWaitConditionPrivate_wait d rs rcu s = Some (Inr (b, s1))"
    and "dropWhile spurious rs = r # rest"
  shows "diagnostics s1 = diagnostics s
     @ (if rcu \<noteq> 0 then [qErrnoWarning rcu ''QWaitCondition::wait(): mutex unlock failure''] else [])
     @ (if rc r \<noteq> 0 \<and> rc r \<noteq> ETIMEDOUT
        then [qErrnoWarning (rc r) ''QWaitCondition::wait(): cv wait failure''] else [])"
proof -
  from Private_wait_eq [OF assms(2), of d rcu s] assms(1) have "wait_finish (rc r) rcu
            (s\<lparr>waiters := waiters_now r, wakeups := wakeups_now r,
               calls := calls s @ replicate (Suc (length (takeWhile spurious rs))) (primitive d)\<rparr>) = Inr (b, s1)"
    by simp
  from wait_finish_diagnostics [OF this] show ?thesis by simp
qed

section \<open>The public wait functions\<close>

text \<open>The three ways of calling wait with a lock that passes the checks have one shape.\<close>

lemma wait_shape:
  assumes "W = wait_QMutex (Some m) \<or> W = wait_QReadWriteLock (Some (l, LockedForRead))
      \<or> W = wait_QReadWriteLock (Some (l, LockedForWrite))"
  shows "\<exists>enter leave c1 c2.
    (\<forall>d os s0. W d os s0 =
       passed leave (QWaitConditionPrivate_wait d (returns os) (rc_unlock os) (enter (rc_lock os) s0)))
    \<and> (\<forall>rcl s. calls (enter rcl s) = calls s @ [pthread_mutex_lock, c1])
    \<and> (\<forall>s. calls (leave s) = calls s @ [c2])
    \<and> (\<forall>s. wakeups (leave s) = wakeups s)
    \<and> (\<forall>s. waiters (leave s) = waiters s)
    \<and> (\<forall>d. c1 \<noteq> primitive d \<and> c2 \<noteq> primitive d)
    \<and> (\<forall>rcl s. diagnostics (enter rcl s) = diagnostics s
          @ (if rcl \<noteq> 0 then [qErrnoWarning rcl ''QWaitCondition::wait(): mutex lock failure''] else []))
    \<and> (\<forall>s. diagnostics (leave s) = diagnostics s)"
proof -
  consider (a) "W = wait_QMutex (Some m)" | (b) "W = wait_QReadWriteLock (Some (l, LockedForRead))"
    | (c) "W = wait_QReadWriteLock (Some (l, LockedForWrite))"
    using assms by blast
  then show ?thesis
  proof cases
    case a
    show ?thesis
      by (rule exI [of _ "enter_QMutex m"], rule exI [of _ "invoke (QMutex_lock m)"],
          rule exI [of _ "QMutex_unlock m"], rule exI [of _ "QMutex_lock m"])
        (simp add: a wait_QMutex_def passed_def primitive_def enter_QMutex_def Let_def
            report_error_diagnostics)
  next
    case b
    show ?thesis
      by (rule exI [of _ "enter_QReadWriteLock l"], rule exI [of _ "relock_QReadWriteLock l LockedForRead"],
          rule exI [of _ "QReadWriteLock_unlock l"], rule exI [of _ "QReadWriteLock_lockForRead l"])
        (simp add: b wait_QReadWriteLock_def relock_QReadWriteLock_def passed_def primitive_def
            enter_QReadWriteLock_def Let_def report_error_diagnostics)
  next
    case c
    show ?thesis
      by (rule exI [of _ "enter_QReadWriteLock l"], rule exI [of _ "relock_QReadWriteLock l LockedForWrite"],
          rule exI [of _ "QReadWriteLock_unlock l"], rule exI [of _ "QReadWriteLock_lockForWrite l"])
        (simp add: c wait_QReadWriteLock_def relock_QReadWriteLock_def passed_def primitive_def
            enter_QReadWriteLock_def Let_def report_error_diagnostics)
  qed
qed

lemma wait_returns_when:
  assumes W: "W = wait_QMutex (Some m) \<or> W = wait_QReadWriteLock (Some (l, LockedForRead))
      \<or> W = wait_QReadWriteLock (Some (l, LockedForWrite))"
    and r: "W d os s0 = Some (Inr (b, s'))"
  shows "\<exists>pre r rest. returns os = pre @ r # rest \<and> list_all spurious pre \<and>
          (rc r = 0 \<and> 0 < wakeups_now r \<and> b \<and> wakeups s' = wakeups_now r - 1
           \<or> rc r \<noteq> 0 \<and> \<not> b \<and> wakeups s' = wakeups_now r)
          \<and> diagnostics s' = diagnostics s0
              @ (if rc_lock os \<noteq> 0
                 then [qErrnoWarning (rc_lock os) ''QWaitCondition::wait(): mutex lock failure''] else [])
              @ (if rc_unlock os \<noteq> 0
                 then [qErrnoWarning (rc_unlock os) ''QWaitCondition::wait(): mutex unlock failure''] else [])
              @ (if rc r \<noteq> 0 \<and> rc r \<noteq> ETIMEDOUT
                 then [qErrnoWarning (rc r) ''QWaitCondition::wait(): cv wait failure''] else [])"
proof -
  from wait_shape [OF W] obtain enter leave where
    shape: "\<And>d os s0. W d os s0 =
       passed leave (QWaitConditionPrivate_wait d (returns os) (rc_unlock os) (enter (rc_lock os) s0))"
    and leave: "\<And>s. wakeups (leave s) = wakeups s"
    and enter_d: "\<And>rcl s. diagnostics (enter rcl s) = diagnostics s
          @ (if rcl \<noteq> 0 then [qErrnoWarning rcl ''QWaitCondition::wait(): mutex lock failure''] else [])"
    and leave_d: "\<And>s. diagnostics (leave s) = diagnostics s"
    by blast
  from r obtain s1 where
    p: "QWaitConditionPrivate_wait d (returns os) (rc_unlock os) (enter (rc_lock os) s0) = Some (Inr (b, s1))"
    and s': "s' = leave s1"
    by (auto simp add: shape passed_def split: option.splits sum.splits)
  from Private_wait_returns [OF p] obtain r rest where
    d: "dropWhile spurious (returns os) = r # rest" and b: "b = (rc r = 0)"
    and k: "rc r = 0 \<longrightarrow> 0 < wakeups_now r"
    and w: "wakeups s1 = (if rc r = 0 then wakeups_now r - 1 else wakeups_now r)"
    by blast
  from d obtain pre where pre: "returns os = pre @ r # rest" "list_all spurious pre"
    by (auto simp add: split_at_first_real)
  have "diagnostics s' = diagnostics s0
              @ (if rc_lock os \<noteq> 0
                 then [qErrnoWarning (rc_lock os) ''QWaitCondition::wait(): mutex lock failure''] else [])
              @ (if rc_unlock os \<noteq> 0
                 then [qErrnoWarning (rc_unlock os) ''QWaitCondition::wait(): mutex unlock failure''] else [])
              @ (if rc r \<noteq> 0 \<and> rc r \<noteq> ETIMEDOUT
                 then [qErrnoWarning (rc r) ''QWaitCondition::wait(): cv wait failure''] else [])"
    unfolding s' leave_d Private_wait_diagnostics [OF p d] enter_d by simp
  moreover have "rc r = 0 \<and> 0 < wakeups_now r \<and> b \<and> wakeups s' = wakeups_now r - 1
           \<or> rc r \<noteq> 0 \<and> \<not> b \<and> wakeups s' = wakeups_now r"
    using b k w s' leave by auto
  ultimately show ?thesis using pre by blast
qed

lemma count_list_replicate: "count_list (replicate n x) x = n"
  by (induction n) simp_all

lemma count_primitive:
  "c1 \<noteq> p \<Longrightarrow> c2 \<noteq> p \<Longrightarrow> p \<noteq> pthread_mutex_lock \<Longrightarrow> p \<noteq> pthread_mutex_unlock \<Longrightarrow>
   count_list (xs @ [pthread_mutex_lock, c1] @ replicate n p @ [pthread_mutex_unlock, c2]) p
     = count_list xs p + n"
  by (simp add: count_list_replicate)

text \<open>
  Claim C2, as amended. \<open>W\<close> is a call of wait with a valid lock: a mutex, or a read-write
  lock held for read or for write. Whatever the deadline:
  \<^item> when the call returns, the returns of the primitive before the last one were all
    spurious (success with \<open>wakeups = 0\<close>), and the last one either reported success with
    \<open>wakeups > 0\<close>, in which case the call returns true and has consumed one wakeup, or
    reported a code other than success (\<^verbatim>\<open>ETIMEDOUT\<close> or any other error), in which case
    the call returns false and consumes nothing; what the call has written to the
    diagnostic sink is then known exactly: a failure of the lock or of the unlock of the
    internal mutex, and the code of the primitive when it is neither success nor
    \<^verbatim>\<open>ETIMEDOUT\<close> (a timeout is not reported, any other error is);
  \<^item> as long as the primitive returns spuriously the call does not return;
  \<^item> at the first return that is not spurious the call does return, true exactly when
    the code is success, having called the primitive once for that return and once for
    each spurious return before it (the counters found there being those of a live
    condition variable: \<open>waiters > 0\<close>, \<open>wakeups \<ge> 0\<close>).
\<close>

theorem wait_returns_on_wakeup_or_failure:
  assumes W: "W = wait_QMutex (Some m) \<or> W = wait_QReadWriteLock (Some (l, LockedForRead))
      \<or> W = wait_QReadWriteLock (Some (l, LockedForWrite))"
  shows "(W deadline os s0 = Some (Inr (b, s')) \<longrightarrow>
          (\<exists>pre r rest. returns os = pre @ r # rest \<and> list_all spurious pre \<and>
             (rc r = 0 \<and> 0 < wakeups_now r \<and> b \<and> wakeups s' = wakeups_now r - 1
              \<or> rc r \<noteq> 0 \<and> \<not> b \<and> wakeups s' = wakeups_now r)
             \<and> diagnostics s' = diagnostics s0
                 @ (if rc_lock os \<noteq> 0
                    then [qErrnoWarning (rc_lock os) ''QWaitCondition::wait(): mutex lock failure'']
                    else [])
                 @ (if rc_unlock os \<noteq> 0
                    then [qErrnoWarning (rc_unlock os) ''QWaitCondition::wait(): mutex unlock failure'']
                    else [])
                 @ (if rc r \<noteq> 0 \<and> rc r \<noteq> ETIMEDOUT
                    then [qErrnoWarning (rc r) ''QWaitCondition::wait(): cv wait failure'']
                    else [])))
     \<and> (list_all spurious (returns os) \<longrightarrow> W deadline os s0 = None)
     \<and> (returns os = pre @ r # rest \<and> list_all spurious pre \<and> \<not> spurious r
          \<and> 0 < waiters_now r \<and> 0 \<le> wakeups_now r \<longrightarrow>
          (\<exists>s1. W deadline os s0 = Some (Inr (rc r = 0, s1))
             \<and> count_list (calls s1) (primitive deadline)
                 = count_list (calls s0) (primitive deadline) + length pre + 1))"
proof (intro conjI impI)
  assume "W deadline os s0 = Some (Inr (b, s'))"
  from wait_returns_when [OF W this]
  show "\<exists>pre r rest. returns os = pre @ r # rest \<and> list_all spurious pre \<and>
             (rc r = 0 \<and> 0 < wakeups_now r \<and> b \<and> wakeups s' = wakeups_now r - 1
              \<or> rc r \<noteq> 0 \<and> \<not> b \<and> wakeups s' = wakeups_now r)
             \<and> diagnostics s' = diagnostics s0
                 @ (if rc_lock os \<noteq> 0
                    then [qErrnoWarning (rc_lock os) ''QWaitCondition::wait(): mutex lock failure'']
                    else [])
                 @ (if rc_unlock os \<noteq> 0
                    then [qErrnoWarning (rc_unlock os) ''QWaitCondition::wait(): mutex unlock failure'']
                    else [])
                 @ (if rc r \<noteq> 0 \<and> rc r \<noteq> ETIMEDOUT
                    then [qErrnoWarning (rc r) ''QWaitCondition::wait(): cv wait failure'']
                    else [])" .
next
  from wait_shape [OF W] obtain enter leave where
    shape: "\<And>d os s0. W d os s0 =
       passed leave (QWaitConditionPrivate_wait d (returns os) (rc_unlock os) (enter (rc_lock os) s0))"
    by blast
  assume "list_all spurious (returns os)"
  then have "dropWhile spurious (returns os) = []" by (simp add: list_all_iff)
  from Private_wait_None [OF this] show "W deadline os s0 = None"
    by (simp add: shape passed_def)
next
  from wait_shape [OF W] obtain enter leave c1 c2 where
    shape: "\<And>d os s0. W d os s0 =
       passed leave (QWaitConditionPrivate_wait d (returns os) (rc_unlock os) (enter (rc_lock os) s0))"
    and enter: "\<And>rcl s. calls (enter rcl s) = calls s @ [pthread_mutex_lock, c1]"
    and leave: "\<And>s. calls (leave s) = calls s @ [c2]"
    and c: "c1 \<noteq> primitive deadline" "c2 \<noteq> primitive deadline"
    by blast
  assume a: "returns os = pre @ r # rest \<and> list_all spurious pre \<and> \<not> spurious r
          \<and> 0 < waiters_now r \<and> 0 \<le> wakeups_now r"
  then have d: "dropWhile spurious (returns os) = r # rest"
    and t: "takeWhile spurious (returns os) = pre"
    by (auto simp add: split_at_first_real takeWhile_at_first_real)
  from a have "0 < waiters_now r" and "rc r = 0 \<longrightarrow> 0 < wakeups_now r"
    by (auto simp add: spurious_def)
  from Private_wait_total [OF d this, of deadline "rc_unlock os" "enter (rc_lock os) s0"]
  obtain s1 where p: "QWaitConditionPrivate_wait deadline (returns os) (rc_unlock os) (enter (rc_lock os) s0)
       = Some (Inr (rc r = 0, s1))"
    and k: "calls s1 = calls (enter (rc_lock os) s0) @ replicate (Suc (length pre)) (primitive deadline)
       @ [pthread_mutex_unlock]"
    by (auto simp add: t)
  have "W deadline os s0 = Some (Inr (rc r = 0, leave s1))"
    by (simp add: shape p passed_def)
  moreover have k': "calls (leave s1) = calls s0 @ [pthread_mutex_lock, c1]
      @ replicate (Suc (length pre)) (primitive deadline) @ [pthread_mutex_unlock, c2]"
    by (simp add: leave k enter)
  have pne: "primitive deadline \<noteq> pthread_mutex_lock" "primitive deadline \<noteq> pthread_mutex_unlock"
    by (simp_all add: primitive_def)
  have "count_list (calls (leave s1)) (primitive deadline)
      = count_list (calls s0) (primitive deadline) + Suc (length pre)"
    unfolding k' by (rule count_primitive [OF c pne])
  then have "count_list (calls (leave s1)) (primitive deadline)
      = count_list (calls s0) (primitive deadline) + length pre + 1"
    by simp
  ultimately show "\<exists>s1. W deadline os s0 = Some (Inr (rc r = 0, s1))
             \<and> count_list (calls s1) (primitive deadline)
                 = count_list (calls s0) (primitive deadline) + length pre + 1"
    by blast
qed

text \<open>
  The theorem at work: a wait with a deadline of 50 ms whose primitive first returns
  spuriously and then with a wakeup pending returns true after two calls of the
  primitive; with the spurious return alone it does not return. A wait on a read-write
  lock whose primitive fails with the code 5 returns false and has reported that code,
  with an unlock that fails with the code 1 reported before it; a wait that runs into the
  timeout has reported nothing.
\<close>

theorem wait_returns_on_wakeup_or_failure_witness:
  "(\<exists>s1. wait_QMutex (Some 7) (Msecs 50)
       \<lparr>rc_lock = 0,
        returns = [\<lparr>rc = 0, waiters_now = 1, wakeups_now = 0\<rparr>, \<lparr>rc = 0, waiters_now = 2, wakeups_now = 1\<rparr>],
        rc_unlock = 0\<rparr>
       (QWaitCondition 0 0) = Some (Inr (True, s1))
       \<and> count_list (calls s1) (pthread_cond_timedwait (Msecs 50)) = 2)
   \<and> wait_QMutex (Some 7) (Msecs 50)
       \<lparr>rc_lock = 0, returns = [\<lparr>rc = 0, waiters_now = 1, wakeups_now = 0\<rparr>], rc_unlock = 0\<rparr>
       (QWaitCondition 0 0) = None
   \<and> (\<exists>s1. wait_QReadWriteLock (Some (9, LockedForWrite)) Forever
       \<lparr>rc_lock = 0, returns = [\<lparr>rc = 5, waiters_now = 1, wakeups_now = 0\<rparr>], rc_unlock = 1\<rparr>
       (QWaitCondition 0 0) = Some (Inr (False, s1))
       \<and> diagnostics s1 = [qErrnoWarning 1 ''QWaitCondition::wait(): mutex unlock failure'',
                            qErrnoWarning 5 ''QWaitCondition::wait(): cv wait failure''])
   \<and> (\<exists>s1. wait_QMutex (Some 7) (Msecs 50)
       \<lparr>rc_lock = 0, returns = [\<lparr>rc = ETIMEDOUT, waiters_now = 1, wakeups_now = 0\<rparr>], rc_unlock = 0\<rparr>
       (QWaitCondition 0 0) = Some (Inr (False, s1))
       \<and> diagnostics s1 = [])"
proof -
  let ?sp = "\<lparr>rc = 0, waiters_now = 1, wakeups_now = 0\<rparr>"
  let ?re = "\<lparr>rc = 0, waiters_now = 2, wakeups_now = 1\<rparr>"
  let ?er = "\<lparr>rc = 5, waiters_now = 1, wakeups_now = 0\<rparr>"
  let ?to = "\<lparr>rc = ETIMEDOUT, waiters_now = 1, wakeups_now = 0\<rparr>"
  let ?os = "\<lparr>rc_lock = 0, returns = [?sp, ?re], rc_unlock = 0\<rparr>"
  let ?os' = "\<lparr>rc_lock = 0, returns = [?sp], rc_unlock = 0\<rparr>"
  let ?oe = "\<lparr>rc_lock = 0, returns = [?er], rc_unlock = 1\<rparr>"
  let ?ot = "\<lparr>rc_lock = 0, returns = [?to], rc_unlock = 0\<rparr>"
  have W: "wait_QMutex (Some 7) = wait_QMutex (Some 7)
      \<or> wait_QMutex (Some 7) = wait_QReadWriteLock (Some (0, LockedForRead))
      \<or> wait_QMutex (Some 7) = wait_QReadWriteLock (Some (0, LockedForWrite))"
    by simp
  have W': "wait_QReadWriteLock (Some (9, LockedForWrite)) = wait_QMutex (Some 7)
      \<or> wait_QReadWriteLock (Some (9, LockedForWrite)) = wait_QReadWriteLock (Some (9, LockedForRead))
      \<or> wait_QReadWriteLock (Some (9, LockedForWrite)) = wait_QReadWriteLock (Some (9, LockedForWrite))"
    by simp
  have h: "returns ?os = [?sp] @ ?re # [] \<and> list_all spurious [?sp] \<and> \<not> spurious ?re
      \<and> 0 < waiters_now ?re \<and> 0 \<le> wakeups_now ?re"
    by (simp add: spurious_def)
  have h': "list_all spurious (returns ?os')"
    by (simp add: spurious_def)
  from wait_returns_on_wakeup_or_failure
    [OF W, of "Msecs 50" ?os "QWaitCondition 0 0" True undefined "[?sp]" ?re "[]"] h
  have "\<exists>s1. wait_QMutex (Some 7) (Msecs 50) ?os (QWaitCondition 0 0) = Some (Inr (True, s1))
       \<and> count_list (calls s1) (primitive (Msecs 50))
           = count_list (calls (QWaitCondition 0 0)) (primitive (Msecs 50)) + length [?sp] + 1"
    by simp
  moreover have "count_list (calls (QWaitCondition 0 0)) (primitive (Msecs 50)) = 0"
    by (simp add: local_defs primitive_def)
  moreover from wait_returns_on_wakeup_or_failure
    [OF W, of "Msecs 50" ?os' "QWaitCondition 0 0" True undefined "[]" ?sp "[]"] h'
  have "wait_QMutex (Some 7) (Msecs 50) ?os' (QWaitCondition 0 0) = None"
    by simp
  moreover have "\<exists>s1. wait_QReadWriteLock (Some (9, LockedForWrite)) Forever ?oe (QWaitCondition 0 0)
        = Some (Inr (False, s1))
       \<and> diagnostics s1 = [qErrnoWarning 1 ''QWaitCondition::wait(): mutex unlock failure'',
                            qErrnoWarning 5 ''QWaitCondition::wait(): cv wait failure'']"
  proof -
    obtain s1 where r: "wait_QReadWriteLock (Some (9, LockedForWrite)) Forever ?oe (QWaitCondition 0 0)
        = Some (Inr (False, s1))"
      by (simp add: local_defs)
    have e: "diagnostics (QWaitCondition 0 0) = []" by (simp add: local_defs)
    from wait_returns_on_wakeup_or_failure
      [OF W', of Forever ?oe "QWaitCondition 0 0" False s1 "[]" ?er "[]"] r
    obtain pre x rest where "[?er] = pre @ x # rest"
      and d: "diagnostics s1 = diagnostics (QWaitCondition 0 0)
          @ [qErrnoWarning 1 ''QWaitCondition::wait(): mutex unlock failure'']
          @ (if rc x \<noteq> 0 \<and> rc x \<noteq> ETIMEDOUT
             then [qErrnoWarning (rc x) ''QWaitCondition::wait(): cv wait failure''] else [])"
      by auto
    then have "x = ?er" by (auto simp add: Cons_eq_append_conv)
    with d e r show ?thesis by (simp add: ETIMEDOUT_def)
  qed
  moreover have "\<exists>s1. wait_QMutex (Some 7) (Msecs 50) ?ot (QWaitCondition 0 0) = Some (Inr (False, s1))
       \<and> diagnostics s1 = []"
  proof -
    obtain s1 where r: "wait_QMutex (Some 7) (Msecs 50) ?ot (QWaitCondition 0 0) = Some (Inr (False, s1))"
      by (simp add: local_defs)
    have e: "diagnostics (QWaitCondition 0 0) = []" by (simp add: local_defs)
    from wait_returns_on_wakeup_or_failure
      [OF W, of "Msecs 50" ?ot "QWaitCondition 0 0" False s1 "[]" ?to "[]"] r
    obtain pre x rest where "[?to] = pre @ x # rest"
      and d: "diagnostics s1 = diagnostics (QWaitCondition 0 0)
          @ (if rc x \<noteq> 0 \<and> rc x \<noteq> ETIMEDOUT
             then [qErrnoWarning (rc x) ''QWaitCondition::wait(): cv wait failure''] else [])"
      by auto
    then have "x = ?to" by (auto simp add: Cons_eq_append_conv)
    with d e r show ?thesis by simp
  qed
  ultimately show ?thesis by (auto simp add: primitive_def numeral_2_eq_2)
qed

text \<open>
  Claim C2 as the spec states it fails: a wait without deadline (\<open>Forever\<close>) whose
  primitive returns the error code 22 (\<^verbatim>\<open>EINVAL\<close>) returns false to the caller, although
  no wakeup was consumed and no deadline elapsed; the failure is reported.
\<close>

theorem wait_returns_on_os_error:
  "wait_QMutex (Some 7) Forever
     \<lparr>rc_lock = 0, returns = [\<lparr>rc = 22, waiters_now = 1, wakeups_now = 0\<rparr>], rc_unlock = 0\<rparr>
     \<lparr>waiters = 0, wakeups = 0, calls = [], diagnostics = []\<rparr>
   = Some (Inr (False,
       \<lparr>waiters = 0, wakeups = 0,
        calls = [pthread_mutex_lock, QMutex_unlock 7, pthread_cond_wait, pthread_mutex_unlock, QMutex_lock 7],
        diagnostics = [qErrnoWarning 22 ''QWaitCondition::wait(): cv wait failure'']\<rparr>))
   \<and> (22 :: code) \<noteq> 0 \<and> 22 \<noteq> ETIMEDOUT"
  by (simp add: local_defs)

text \<open>
  Claim C3. A call of wait that passed the precondition checks and returns, whatever the
  last code of the primitive (success, \<^verbatim>\<open>ETIMEDOUT\<close> or an error), has made exactly these
  calls, in this order: the lock of the internal mutex, the release of the caller's lock,
  the calls of the primitive, the unlock of the internal mutex and, last, the
  reacquisition of the caller's lock. For a \<^verbatim>\<open>QMutex\<close> that is \<^verbatim>\<open>lock()\<close>; for a
  \<^verbatim>\<open>QReadWriteLock\<close> it is \<^verbatim>\<open>lockForWrite()\<close> when the lock was held for write on
  entry and \<^verbatim>\<open>lockForRead()\<close> otherwise.
\<close>

theorem caller_lock_reacquired:
  "(wait_QMutex (Some m) deadline os s0 = Some (Inr (b, s')) \<longrightarrow>
      calls s' = calls s0 @ [pthread_mutex_lock, QMutex_unlock m]
        @ replicate (Suc (length (takeWhile spurious (returns os)))) (primitive deadline)
        @ [pthread_mutex_unlock, QMutex_lock m])
   \<and> (wait_QReadWriteLock (Some (l, previousState)) deadline os s0 = Some (Inr (b, s'))
        \<and> previousState \<noteq> Unlocked \<and> previousState \<noteq> RecursivelyLocked \<longrightarrow>
      calls s' = calls s0 @ [pthread_mutex_lock, QReadWriteLock_unlock l]
        @ replicate (Suc (length (takeWhile spurious (returns os)))) (primitive deadline)
        @ [pthread_mutex_unlock,
           if previousState = LockedForWrite then QReadWriteLock_lockForWrite l
           else QReadWriteLock_lockForRead l])"
proof (intro conjI impI)
  assume "wait_QMutex (Some m) deadline os s0 = Some (Inr (b, s'))"
  then obtain s1 where
    p: "QWaitConditionPrivate_wait deadline (returns os) (rc_unlock os) (enter_QMutex m (rc_lock os) s0)
          = Some (Inr (b, s1))"
    and s': "s' = invoke (QMutex_lock m) s1"
    by (auto simp add: wait_QMutex_def split: option.splits sum.splits)
  from Private_wait_returns [OF p] s'
  show "calls s' = calls s0 @ [pthread_mutex_lock, QMutex_unlock m]
        @ replicate (Suc (length (takeWhile spurious (returns os)))) (primitive deadline)
        @ [pthread_mutex_unlock, QMutex_lock m]"
    by auto
next
  assume a: "wait_QReadWriteLock (Some (l, previousState)) deadline os s0 = Some (Inr (b, s'))
        \<and> previousState \<noteq> Unlocked \<and> previousState \<noteq> RecursivelyLocked"
  then obtain s1 where
    p: "QWaitConditionPrivate_wait deadline (returns os) (rc_unlock os)
          (enter_QReadWriteLock l (rc_lock os) s0) = Some (Inr (b, s1))"
    and s': "s' = relock_QReadWriteLock l previousState s1"
    by (auto simp add: wait_QReadWriteLock_def split: option.splits sum.splits)
  from Private_wait_returns [OF p] s'
  show "calls s' = calls s0 @ [pthread_mutex_lock, QReadWriteLock_unlock l]
        @ replicate (Suc (length (takeWhile spurious (returns os)))) (primitive deadline)
        @ [pthread_mutex_unlock,
           if previousState = LockedForWrite then QReadWriteLock_lockForWrite l
           else QReadWriteLock_lockForRead l]"
    by (auto simp add: relock_QReadWriteLock_def)
qed

text \<open>
  The three exit paths: a timeout on a mutex, an error of the primitive on a read-write
  lock held for write, a wakeup on a read-write lock held for read.
\<close>

theorem caller_lock_reacquired_witness:
  "(\<exists>s'. wait_QMutex (Some 7) (Msecs 50)
       \<lparr>rc_lock = 0, returns = [\<lparr>rc = ETIMEDOUT, waiters_now = 1, wakeups_now = 0\<rparr>], rc_unlock = 0\<rparr>
       \<lparr>waiters = 0, wakeups = 0, calls = [], diagnostics = []\<rparr> = Some (Inr (False, s'))
     \<and> calls s' = [pthread_mutex_lock, QMutex_unlock 7, pthread_cond_timedwait (Msecs 50),
                    pthread_mutex_unlock, QMutex_lock 7])
   \<and> (\<exists>s'. wait_QReadWriteLock (Some (9, LockedForWrite)) Forever
       \<lparr>rc_lock = 0, returns = [\<lparr>rc = 22, waiters_now = 1, wakeups_now = 0\<rparr>], rc_unlock = 0\<rparr>
       \<lparr>waiters = 0, wakeups = 0, calls = [], diagnostics = []\<rparr> = Some (Inr (False, s'))
     \<and> calls s' = [pthread_mutex_lock, QReadWriteLock_unlock 9, pthread_cond_wait,
                    pthread_mutex_unlock, QReadWriteLock_lockForWrite 9])
   \<and> (\<exists>s'. wait_QReadWriteLock (Some (9, LockedForRead)) Forever
       \<lparr>rc_lock = 0, returns = [\<lparr>rc = 0, waiters_now = 1, wakeups_now = 1\<rparr>], rc_unlock = 0\<rparr>
       \<lparr>waiters = 0, wakeups = 0, calls = [], diagnostics = []\<rparr> = Some (Inr (True, s'))
     \<and> calls s' = [pthread_mutex_lock, QReadWriteLock_unlock 9, pthread_cond_wait,
                    pthread_mutex_unlock, QReadWriteLock_lockForRead 9])"
proof -
  let ?s0 = "\<lparr>waiters = 0, wakeups = 0, calls = [], diagnostics = []\<rparr>"
  let ?o1 = "\<lparr>rc_lock = 0, returns = [\<lparr>rc = ETIMEDOUT, waiters_now = 1, wakeups_now = 0\<rparr>], rc_unlock = 0\<rparr>"
  let ?o2 = "\<lparr>rc_lock = 0, returns = [\<lparr>rc = 22, waiters_now = 1, wakeups_now = 0\<rparr>], rc_unlock = 0\<rparr>"
  let ?o3 = "\<lparr>rc_lock = 0, returns = [\<lparr>rc = 0, waiters_now = 1, wakeups_now = 1\<rparr>], rc_unlock = 0\<rparr>"
  obtain s1 where r1: "wait_QMutex (Some 7) (Msecs 50) ?o1 ?s0 = Some (Inr (False, s1))"
    by (simp add: local_defs)
  obtain s2 where r2: "wait_QReadWriteLock (Some (9, LockedForWrite)) Forever ?o2 ?s0 = Some (Inr (False, s2))"
    by (simp add: local_defs)
  obtain s3 where r3: "wait_QReadWriteLock (Some (9, LockedForRead)) Forever ?o3 ?s0 = Some (Inr (True, s3))"
    by (simp add: local_defs)
  from caller_lock_reacquired [of 7 "Msecs 50" ?o1 ?s0 False s1 9 LockedForWrite] r1
  have "calls s1 = [pthread_mutex_lock, QMutex_unlock 7, pthread_cond_timedwait (Msecs 50),
                    pthread_mutex_unlock, QMutex_lock 7]"
    by (simp add: spurious_def primitive_def ETIMEDOUT_def)
  moreover from caller_lock_reacquired [of 7 Forever ?o2 ?s0 False s2 9 LockedForWrite] r2
  have "calls s2 = [pthread_mutex_lock, QReadWriteLock_unlock 9, pthread_cond_wait,
                    pthread_mutex_unlock, QReadWriteLock_lockForWrite 9]"
    by (simp add: spurious_def primitive_def)
  moreover from caller_lock_reacquired [of 7 Forever ?o3 ?s0 True s3 9 LockedForRead] r3
  have "calls s3 = [pthread_mutex_lock, QReadWriteLock_unlock 9, pthread_cond_wait,
                    pthread_mutex_unlock, QReadWriteLock_lockForRead 9]"
    by (simp add: spurious_def primitive_def)
  ultimately show ?thesis using r1 r2 r3 by simp
qed

text \<open>
  Claim C7. With a null \<^verbatim>\<open>QMutex\<close> pointer, wait returns false for every deadline and
  whatever the operating system would answer, in the state in which it was called: the
  counters, the calls made (none on any lock, none of the blocking primitive) and the
  diagnostics are unchanged.
\<close>

theorem wait_null_QMutex:
  "wait_QMutex None deadline os s = Some (Inr (False, s))"
  by (simp add: wait_QMutex_def)

text \<open>
  Claim C8. On a read-write lock, wait returns false for every deadline, without a call
  of the blocking primitive and with \<open>waiters\<close> and \<open>wakeups\<close> unchanged, when the pointer
  is null, when the lock reports \<open>Unlocked\<close>, and when it reports \<open>RecursivelyLocked\<close>;
  in the last case, and only there, a warning is written.
\<close>

theorem wait_QReadWriteLock_misuse:
  "wait_QReadWriteLock None deadline os s = Some (Inr (False, s))
   \<and> wait_QReadWriteLock (Some (l, Unlocked)) deadline os s = Some (Inr (False, s))
   \<and> wait_QReadWriteLock (Some (l, RecursivelyLocked)) deadline os s
       = Some (Inr (False, s\<lparr>diagnostics := diagnostics s @
           [qWarning ''QWaitCondition: cannot wait on QReadWriteLocks with recursive lockForWrite()'']\<rparr>))"
  by (simp add: wait_QReadWriteLock_def)

text \<open>The conversion of the \<^verbatim>\<open>unsigned long\<close> to the signed 64-bit parameter.\<close>

lemma to_qint64_signed: "to_qint64 time = signed_take_bit 63 (uint time)"
  by (simp add: to_qint64_def signed_ucast_eq)

lemma to_qint64_small:
  assumes "uint time < 2 ^ 63"
  shows "to_qint64 time = uint time"
proof -
  have "- (2 ^ 63) \<le> uint time" by (rule order_trans [of _ 0]) simp_all
  from this assms have "signed_take_bit 63 (uint time) = uint time"
    by (rule signed_take_bit_int_eq_self)
  then show ?thesis by (simp add: to_qint64_signed)
qed

lemma to_qint64_large:
  assumes l: "2 ^ 63 \<le> uint time" and u: "uint time < 2 ^ 64"
  shows "to_qint64 time = uint time - 2 ^ 64"
proof -
  have "signed_take_bit 63 (uint time) = take_bit (Suc 63) (uint time + 2 ^ 63) - 2 ^ 63"
    by (rule signed_take_bit_eq_take_bit_shift)
  also have "take_bit (Suc 63) (uint time + 2 ^ 63) = (uint time + 2 ^ 63) mod 2 ^ 64"
    by (simp add: take_bit_eq_mod)
  also have "(uint time + 2 ^ 63) mod 2 ^ 64 = uint time + 2 ^ 63 - 2 ^ 64"
  proof -
    have "(uint time + 2 ^ 63) mod 2 ^ 64 = (uint time + 2 ^ 63 - 2 ^ 64) mod 2 ^ 64"
      by (metis mod_diff_right_eq mod_self diff_zero)
    also have "\<dots> = uint time + 2 ^ 63 - 2 ^ 64"
      using l u by (intro mod_pos_pos_trivial) simp_all
    finally show ?thesis .
  qed
  finally show ?thesis by (simp add: to_qint64_signed)
qed

lemma to_qint64_narrow:
  assumes "LENGTH('a::len) < 64"
  shows "to_qint64 (time :: 'a word) = uint time"
proof -
  have "uint time < 2 ^ LENGTH('a)" by (rule uint_lt2p)
  also from assms have "(2 :: int) ^ LENGTH('a) \<le> 2 ^ 63" by (intro power_increasing) simp_all
  finally show ?thesis by (rule to_qint64_small)
qed

text \<open>What a returning call of the overloads has called, by the calls of the deadline overloads.\<close>

lemma wait_QMutex_calls:
  assumes "wait_QMutex (Some m) deadline os s0 = Some (Inr (b, s'))"
  shows "calls s' = calls s0 @ [pthread_mutex_lock, QMutex_unlock m]
        @ replicate (Suc (length (takeWhile spurious (returns os)))) (primitive deadline)
        @ [pthread_mutex_unlock, QMutex_lock m]"
proof -
  from assms obtain s1 where
    p: "QWaitConditionPrivate_wait deadline (returns os) (rc_unlock os) (enter_QMutex m (rc_lock os) s0)
          = Some (Inr (b, s1))"
    and s': "s' = invoke (QMutex_lock m) s1"
    by (auto simp add: wait_QMutex_def split: option.splits sum.splits)
  from Private_wait_returns [OF p] s' show ?thesis by auto
qed

lemma wait_QReadWriteLock_calls:
  assumes "p = LockedForRead \<or> p = LockedForWrite"
    and "wait_QReadWriteLock (Some (l, p)) deadline os s0 = Some (Inr (b, s'))"
  shows "calls s' = calls s0 @ [pthread_mutex_lock, QReadWriteLock_unlock l]
        @ replicate (Suc (length (takeWhile spurious (returns os)))) (primitive deadline)
        @ [pthread_mutex_unlock,
           if p = LockedForWrite then QReadWriteLock_lockForWrite l else QReadWriteLock_lockForRead l]"
proof -
  from assms obtain s1 where
    q: "QWaitConditionPrivate_wait deadline (returns os) (rc_unlock os)
          (enter_QReadWriteLock l (rc_lock os) s0) = Some (Inr (b, s1))"
    and s': "s' = relock_QReadWriteLock l p s1"
    by (auto simp add: wait_QReadWriteLock_def split: option.splits sum.splits)
  from Private_wait_returns [OF q] s' show ?thesis
    by (auto simp add: relock_QReadWriteLock_def)
qed

text \<open>
  Claim C10, as amended. The overloads that take a time in milliseconds give the result
  of the deadline overloads (and so return their boolean):
  \<^item> with the deadline \<open>Forever\<close> when the time is the largest value of
    \<^verbatim>\<open>unsigned long\<close> (the word \<open>- 1\<close>, above which there is no word);
  \<^item> otherwise with the deadline that \<^verbatim>\<open>QDeadlineTimer\<close> builds from the time converted
    to its signed 64-bit parameter. For a time below \<open>2^63\<close>, which is every time when
    \<^verbatim>\<open>unsigned long\<close> has less than 64 bits, that is the time itself: a deadline of that
    many milliseconds from now. For a time from \<open>2^63\<close> up the constructor receives the
    negative number \<open>time - 2^64\<close>.
  A returning call, on a mutex or on a read-write lock held for reading or for writing,
  has blocked in \<^verbatim>\<open>pthread_cond_wait\<close> in the first case and in
  \<^verbatim>\<open>pthread_cond_timedwait\<close> with the deadline of that many milliseconds for a time
  below \<open>2^63\<close>.
\<close>

theorem wait_time_overloads:
  "(time = - 1 \<longrightarrow>
      wait_QMutex_time mutex (time :: 'a::len word) os s = wait_QMutex mutex Forever os s
      \<and> wait_QReadWriteLock_time readWriteLock time os s
          = wait_QReadWriteLock readWriteLock Forever os s)
   \<and> (time \<noteq> - 1 \<longrightarrow>
      wait_QMutex_time mutex time os s = wait_QMutex mutex (Msecs (to_qint64 time)) os s
      \<and> wait_QReadWriteLock_time readWriteLock time os s
          = wait_QReadWriteLock readWriteLock (Msecs (to_qint64 time)) os s)
   \<and> time \<le> - 1
   \<and> (uint time < 2 ^ 63 \<longrightarrow> to_qint64 time = uint time)
   \<and> (LENGTH('a) < 64 \<longrightarrow> to_qint64 time = uint time)
   \<and> (2 ^ 63 \<le> uint time \<and> uint time < 2 ^ 64 \<longrightarrow> to_qint64 time = uint time - 2 ^ 64)
   \<and> (wait_QMutex_time (Some m) time os s = Some (Inr (b, s')) \<and> (time = - 1 \<or> uint time < 2 ^ 63)
        \<longrightarrow>
      calls s' = calls s @ [pthread_mutex_lock, QMutex_unlock m]
        @ replicate (Suc (length (takeWhile spurious (returns os))))
            (if time = - 1 then pthread_cond_wait else pthread_cond_timedwait (Msecs (uint time)))
        @ [pthread_mutex_unlock, QMutex_lock m])
   \<and> (wait_QReadWriteLock_time (Some (l, p)) time os s = Some (Inr (b, s'))
        \<and> (p = LockedForRead \<or> p = LockedForWrite) \<and> (time = - 1 \<or> uint time < 2 ^ 63)
        \<longrightarrow>
      calls s' = calls s @ [pthread_mutex_lock, QReadWriteLock_unlock l]
        @ replicate (Suc (length (takeWhile spurious (returns os))))
            (if time = - 1 then pthread_cond_wait else pthread_cond_timedwait (Msecs (uint time)))
        @ [pthread_mutex_unlock,
           if p = LockedForWrite then QReadWriteLock_lockForWrite l else QReadWriteLock_lockForRead l])"
proof (intro conjI impI)
  assume a: "wait_QReadWriteLock_time (Some (l, p)) time os s = Some (Inr (b, s'))
        \<and> (p = LockedForRead \<or> p = LockedForWrite) \<and> (time = - 1 \<or> uint time < 2 ^ 63)"
  then have v: "p = LockedForRead \<or> p = LockedForWrite" by blast
  show "calls s' = calls s @ [pthread_mutex_lock, QReadWriteLock_unlock l]
        @ replicate (Suc (length (takeWhile spurious (returns os))))
            (if time = - 1 then pthread_cond_wait else pthread_cond_timedwait (Msecs (uint time)))
        @ [pthread_mutex_unlock,
           if p = LockedForWrite then QReadWriteLock_lockForWrite l else QReadWriteLock_lockForRead l]"
  proof (cases "time = - 1")
    case True
    with a have "wait_QReadWriteLock (Some (l, p)) Forever os s = Some (Inr (b, s'))"
      by (simp add: wait_QReadWriteLock_time_def)
    from wait_QReadWriteLock_calls [OF v this] True show ?thesis by (simp add: primitive_def)
  next
    case False
    with a have "uint time < 2 ^ 63" by simp
    then have "to_qint64 time = uint time" by (rule to_qint64_small)
    with a False have "wait_QReadWriteLock (Some (l, p)) (Msecs (uint time)) os s = Some (Inr (b, s'))"
      by (simp add: wait_QReadWriteLock_time_def)
    from wait_QReadWriteLock_calls [OF v this] False show ?thesis by (simp add: primitive_def)
  qed
next
  assume a: "wait_QMutex_time (Some m) time os s = Some (Inr (b, s')) \<and> (time = - 1 \<or> uint time < 2 ^ 63)"
  show "calls s' = calls s @ [pthread_mutex_lock, QMutex_unlock m]
        @ replicate (Suc (length (takeWhile spurious (returns os))))
            (if time = - 1 then pthread_cond_wait else pthread_cond_timedwait (Msecs (uint time)))
        @ [pthread_mutex_unlock, QMutex_lock m]"
  proof (cases "time = - 1")
    case True
    with a have "wait_QMutex (Some m) Forever os s = Some (Inr (b, s'))"
      by (simp add: wait_QMutex_time_def)
    from wait_QMutex_calls [OF this] True show ?thesis by (simp add: primitive_def)
  next
    case False
    with a have "uint time < 2 ^ 63" by simp
    then have "to_qint64 time = uint time" by (rule to_qint64_small)
    with a False have "wait_QMutex (Some m) (Msecs (uint time)) os s = Some (Inr (b, s'))"
      by (simp add: wait_QMutex_time_def)
    from wait_QMutex_calls [OF this] False show ?thesis by (simp add: primitive_def)
  qed
qed (simp_all add: wait_QMutex_time_def wait_QReadWriteLock_time_def to_qint64_small to_qint64_narrow
      to_qint64_large)

text \<open>
  The theorem at work, for an \<^verbatim>\<open>unsigned long\<close> of 64 bits: a wait of 50 ms that runs into
  the timeout has blocked in \<^verbatim>\<open>pthread_cond_timedwait\<close> with the deadline built from 50,
  and a wait with the largest value, woken up, has blocked in \<^verbatim>\<open>pthread_cond_wait\<close>; the
  time \<open>2^63\<close> arrives as \<open>- 2^63\<close>. For an \<^verbatim>\<open>unsigned long\<close> of 32 bits: the largest
  value but one arrives as it is, and a wait on a read-write lock with that time has
  blocked in \<^verbatim>\<open>pthread_cond_timedwait\<close> with the deadline built from it.
\<close>

theorem wait_time_overloads_witness:
  "(\<exists>s'. wait_QMutex_time (Some 7) (50 :: 64 word)
       \<lparr>rc_lock = 0, returns = [\<lparr>rc = ETIMEDOUT, waiters_now = 1, wakeups_now = 0\<rparr>], rc_unlock = 0\<rparr>
       \<lparr>waiters = 0, wakeups = 0, calls = [], diagnostics = []\<rparr> = Some (Inr (False, s'))
     \<and> calls s' = [pthread_mutex_lock, QMutex_unlock 7, pthread_cond_timedwait (Msecs 50),
                    pthread_mutex_unlock, QMutex_lock 7])
   \<and> (\<exists>s'. wait_QMutex_time (Some 7) (- 1 :: 64 word)
       \<lparr>rc_lock = 0, returns = [\<lparr>rc = 0, waiters_now = 1, wakeups_now = 1\<rparr>], rc_unlock = 0\<rparr>
       \<lparr>waiters = 0, wakeups = 0, calls = [], diagnostics = []\<rparr> = Some (Inr (True, s'))
     \<and> calls s' = [pthread_mutex_lock, QMutex_unlock 7, pthread_cond_wait,
                    pthread_mutex_unlock, QMutex_lock 7])
   \<and> to_qint64 (9223372036854775808 :: 64 word) = - 9223372036854775808
   \<and> to_qint64 (4294967294 :: 32 word) = 4294967294
   \<and> (\<exists>s'. wait_QReadWriteLock_time (Some (9, LockedForWrite)) (4294967294 :: 32 word)
       \<lparr>rc_lock = 0, returns = [\<lparr>rc = ETIMEDOUT, waiters_now = 1, wakeups_now = 0\<rparr>], rc_unlock = 0\<rparr>
       \<lparr>waiters = 0, wakeups = 0, calls = [], diagnostics = []\<rparr> = Some (Inr (False, s'))
     \<and> calls s' = [pthread_mutex_lock, QReadWriteLock_unlock 9,
                    pthread_cond_timedwait (Msecs 4294967294),
                    pthread_mutex_unlock, QReadWriteLock_lockForWrite 9])"
proof -
  let ?s0 = "\<lparr>waiters = 0, wakeups = 0, calls = [], diagnostics = []\<rparr>"
  let ?o1 = "\<lparr>rc_lock = 0, returns = [\<lparr>rc = ETIMEDOUT, waiters_now = 1, wakeups_now = 0\<rparr>], rc_unlock = 0\<rparr>"
  let ?o2 = "\<lparr>rc_lock = 0, returns = [\<lparr>rc = 0, waiters_now = 1, wakeups_now = 1\<rparr>], rc_unlock = 0\<rparr>"
  obtain s1 where r1: "wait_QMutex_time (Some 7) (50 :: 64 word) ?o1 ?s0 = Some (Inr (False, s1))"
    by (simp add: wait_QMutex_time_def to_qint64_def local_defs)
  obtain s2 where r2: "wait_QMutex_time (Some 7) (- 1 :: 64 word) ?o2 ?s0 = Some (Inr (True, s2))"
    by (simp add: wait_QMutex_time_def local_defs)
  from wait_time_overloads [of "50 :: 64 word" undefined ?o1 ?s0 undefined 7 False s1] r1
  have "calls s1 = [pthread_mutex_lock, QMutex_unlock 7, pthread_cond_timedwait (Msecs 50),
                    pthread_mutex_unlock, QMutex_lock 7]"
    by (simp add: spurious_def ETIMEDOUT_def)
  moreover from wait_time_overloads [of "- 1 :: 64 word" undefined ?o2 ?s0 undefined 7 True s2] r2
  have "calls s2 = [pthread_mutex_lock, QMutex_unlock 7, pthread_cond_wait,
                    pthread_mutex_unlock, QMutex_lock 7]"
    by (simp add: spurious_def)
  moreover from wait_time_overloads [of "9223372036854775808 :: 64 word"]
  have "to_qint64 (9223372036854775808 :: 64 word) = - 9223372036854775808"
    by simp
  moreover from wait_time_overloads [of "4294967294 :: 32 word"]
  have n: "to_qint64 (4294967294 :: 32 word) = 4294967294"
    by simp
  moreover have "\<exists>s'. wait_QReadWriteLock_time (Some (9, LockedForWrite)) (4294967294 :: 32 word) ?o1 ?s0
        = Some (Inr (False, s'))
     \<and> calls s' = [pthread_mutex_lock, QReadWriteLock_unlock 9,
                    pthread_cond_timedwait (Msecs 4294967294),
                    pthread_mutex_unlock, QReadWriteLock_lockForWrite 9]"
  proof -
    obtain s3 where r3: "wait_QReadWriteLock_time (Some (9, LockedForWrite)) (4294967294 :: 32 word) ?o1 ?s0
        = Some (Inr (False, s3))"
      by (simp add: wait_QReadWriteLock_time_def n local_defs)
    from wait_time_overloads
      [of "4294967294 :: 32 word" undefined ?o1 ?s0 "Some (9, LockedForWrite)" undefined False s3
          9 LockedForWrite] r3
    have "calls s3 = [pthread_mutex_lock, QReadWriteLock_unlock 9,
                    pthread_cond_timedwait (Msecs 4294967294),
                    pthread_mutex_unlock, QReadWriteLock_lockForWrite 9]"
      by (simp add: spurious_def ETIMEDOUT_def)
    with r3 show ?thesis by blast
  qed
  ultimately show ?thesis using r1 r2 by simp
qed

text \<open>
  Claim C10 as the spec states it fails for an \<^verbatim>\<open>unsigned long\<close> of 64 bits: the time
  18446744073709551614 (the largest value but one, the word \<open>- 2\<close>) is not the sentinel,
  and the deadline overload is called with the deadline built from \<open>- 2\<close>, not with one
  of that many milliseconds from now.
\<close>

theorem huge_time_arrives_negative:
  "uint (- 2 :: 64 word) = 18446744073709551614
   \<and> (- 2 :: 64 word) \<noteq> - 1
   \<and> to_qint64 (- 2 :: 64 word) = - 2
   \<and> wait_QMutex_time (Some 7) (- 2 :: 64 word)
       \<lparr>rc_lock = 0, returns = [\<lparr>rc = 0, waiters_now = 1, wakeups_now = 1\<rparr>], rc_unlock = 0\<rparr>
       \<lparr>waiters = 0, wakeups = 0, calls = [], diagnostics = []\<rparr>
     = wait_QMutex (Some 7) (Msecs (- 2))
       \<lparr>rc_lock = 0, returns = [\<lparr>rc = 0, waiters_now = 1, wakeups_now = 1\<rparr>], rc_unlock = 0\<rparr>
       \<lparr>waiters = 0, wakeups = 0, calls = [], diagnostics = []\<rparr>
   \<and> Msecs (- 2) \<noteq> Msecs 18446744073709551614"
  by (simp add: wait_QMutex_time_def to_qint64_def)

section \<open>wakeAll\<close>

text \<open>
  Claim C5. \<^verbatim>\<open>wakeAll\<close> sets \<open>wakeups\<close> to the current \<open>waiters\<close>, leaves \<open>waiters\<close> as
  it is, and makes three calls: the lock of the internal mutex, one broadcast, the unlock.
  It does not call the blocking primitive.
\<close>

theorem wakeAll_sets_wakeups:
  "wakeups (wakeAll rcl rcb rcu s) = waiters s
   \<and> waiters (wakeAll rcl rcb rcu s) = waiters s
   \<and> calls (wakeAll rcl rcb rcu s)
       = calls s @ [pthread_mutex_lock, pthread_cond_broadcast, pthread_mutex_unlock]"
  by (simp add: wakeAll_fields)

section \<open>The shared condition variable: what every schedule keeps\<close>

lemma length_filter_key:
  "distinct (map fst ps) \<Longrightarrow> map_of ps t = Some v \<Longrightarrow>
   int (length (filter (\<lambda>p. fst p \<noteq> t) ps)) = int (length ps) - 1"
proof (induction ps)
  case Nil
  then show ?case by simp
next
  case (Cons p ps)
  show ?case
  proof (cases "fst p = t")
    case True
    with Cons.prems have "t \<notin> fst ` set ps" by auto
    then have "filter (\<lambda>p. fst p \<noteq> t) ps = ps" by (auto simp add: filter_id_conv)
    with True show ?thesis by simp
  next
    case False
    with Cons.prems have "map_of ps t = Some v" by (cases p) (auto split: if_splits)
    with Cons False show ?thesis by simp
  qed
qed

lemma map_of_filter_key: "map_of (filter (\<lambda>p. fst p \<noteq> t) ps) t = None"
  by (induction ps) auto

lemma accounted_constructed: "accounted (constructed a b)"
  by (simp add: accounted_def constructed_def)

lemma step_accounted:
  assumes "accounted S" and "step e S = Ok S'"
  shows "accounted S'"
proof (cases e)
  case (WakeOne t a b c)
  with assms show ?thesis
    by (auto simp add: accounted_def wakeOne_fields split: if_splits)
next
  case (WakeAll t a b c)
  with assms show ?thesis
    by (auto simp add: accounted_def wakeAll_fields split: if_splits)
next
  case (WaitQMutex t mutex d rcl)
  with assms show ?thesis
    by (auto simp add: accounted_def is_parked_def map_of_eq_None_iff split: if_splits option.splits)
next
  case (WaitQReadWriteLock t rw d rcl)
  with assms show ?thesis
    by (auto simp add: accounted_def is_parked_def map_of_eq_None_iff split: if_splits option.splits)
next
  case (Return t code rcu)
  with assms obtain h d where p: "map_of (parked S) t = Some (h, d)"
    by (auto split: option.splits)
  show ?thesis
  proof (cases "code = 0 \<and> wakeups (cv S) = 0")
    case True
    with assms Return p show ?thesis by (auto simp add: accounted_def)
  next
    case False
    with assms Return p obtain b s1 where f: "wait_finish code rcu (cv S) = Inr (b, s1)"
      and S': "S' = S\<lparr>cv := relock h s1, parked := filter (\<lambda>p. fst p \<noteq> t) (parked S),
                       results := results S @ [(t, b)]\<rparr>"
      by (auto split: sum.splits)
    from wait_finish_InrD [OF f] assms(1) p S' show ?thesis
      by (auto simp add: accounted_def distinct_map_filter length_filter_key)
  qed
qed

text \<open>In an accounted state a thread that leaves wait passes both assertions.\<close>

lemma return_leaves:
  assumes a: "accounted S" and p: "is_parked t S" and n: "\<not> (code = 0 \<and> wakeups (cv S) = 0)"
  shows "\<exists>S'. step (Return t code rcu) S = Ok S' \<and> \<not> is_parked t S'
         \<and> results S' = results S @ [(t, code = 0)]
         \<and> waiters (cv S') = waiters (cv S) - 1
         \<and> wakeups (cv S') = (if code = 0 then wakeups (cv S) - 1 else wakeups (cv S))"
proof -
  from p obtain h d where m: "map_of (parked S) t = Some (h, d)"
    by (auto simp add: is_parked_def)
  then have "parked S \<noteq> []" by auto
  with a have w: "0 < waiters (cv S)" by (simp add: accounted_def)
  from a n have k: "code = 0 \<longrightarrow> 0 < wakeups (cv S)" by (auto simp add: accounted_def)
  from wait_finish_Inr [OF w k, of rcu] obtain s1 where
    f: "wait_finish code rcu (cv S) = Inr (code = 0, s1)"
    and f1: "waiters s1 = waiters (cv S) - 1"
    and f2: "wakeups s1 = (if code = 0 then wakeups (cv S) - 1 else wakeups (cv S))"
    by blast
  let ?S' = "S\<lparr>cv := relock h s1, parked := filter (\<lambda>p. fst p \<noteq> t) (parked S),
               results := results S @ [(t, code = 0)]\<rparr>"
  from m n f have "step (Return t code rcu) S = Ok ?S'" by auto
  moreover have "\<not> is_parked t ?S'" by (simp add: is_parked_def map_of_filter_key)
  ultimately show ?thesis using f1 f2 by (intro exI [of _ ?S']) simp
qed

lemma step_no_abort:
  assumes "accounted S"
  shows "step e S \<noteq> Abort f"
proof (cases e)
  case (Return t code rcu)
  show ?thesis
  proof (cases "is_parked t S \<and> \<not> (code = 0 \<and> wakeups (cv S) = 0)")
    case True
    with return_leaves [OF assms, of t code rcu] Return show ?thesis by auto
  next
    case False
    with Return show ?thesis by (auto simp add: is_parked_def split: option.splits)
  qed
qed (auto split: option.splits)

lemma run_accounted:
  "accounted S \<Longrightarrow> run es S = Ok S' \<Longrightarrow> accounted S'"
proof (induction es arbitrary: S)
  case Nil
  then show ?case by simp
next
  case (Cons e es)
  then show ?case by (auto split: outcome.splits dest: step_accounted)
qed

lemma run_no_abort:
  "accounted S \<Longrightarrow> run es S \<noteq> Abort f"
proof (induction es arbitrary: S)
  case Nil
  then show ?case by simp
next
  case (Cons e es)
  then show ?case by (auto split: outcome.splits dest: step_accounted simp add: step_no_abort)
qed

lemma step_keeps_bound:
  assumes "step e T = Ok T'" and "wakeups (cv T) \<le> waiters (cv T)"
    and "failing_return e \<longrightarrow> wakeups (cv T) < waiters (cv T)"
  shows "wakeups (cv T') \<le> waiters (cv T')"
proof (cases e)
  case (WakeOne t a b c)
  with assms show ?thesis by (auto simp add: wakeOne_fields split: if_splits)
next
  case (WakeAll t a b c)
  with assms show ?thesis by (auto simp add: wakeAll_fields split: if_splits)
next
  case (WaitQMutex t mutex d rcl)
  with assms show ?thesis by (auto split: if_splits option.splits)
next
  case (WaitQReadWriteLock t rw d rcl)
  with assms show ?thesis by (auto split: if_splits option.splits)
next
  case (Return t code rcu)
  with assms obtain h d where p: "map_of (parked T) t = Some (h, d)"
    by (auto split: option.splits)
  show ?thesis
  proof (cases "code = 0 \<and> wakeups (cv T) = 0")
    case True
    with assms Return p show ?thesis by auto
  next
    case False
    with assms Return p obtain b s1 where f: "wait_finish code rcu (cv T) = Inr (b, s1)"
      and T': "T' = T\<lparr>cv := relock h s1, parked := filter (\<lambda>p. fst p \<noteq> t) (parked T),
                       results := results T @ [(t, b)]\<rparr>"
      by (auto split: sum.splits)
    from wait_finish_InrD [OF f] assms(2,3) Return T' show ?thesis
      by (auto split: if_splits)
  qed
qed

lemma failing_return_at_bound:
  assumes "step (Return t code rcu) T = Ok T'" and "code \<noteq> 0"
  shows "wakeups (cv T') = wakeups (cv T) \<and> waiters (cv T') = waiters (cv T) - 1"
proof -
  from assms obtain h d where p: "map_of (parked T) t = Some (h, d)"
    by (auto split: option.splits)
  with assms obtain b s1 where f: "wait_finish code rcu (cv T) = Inr (b, s1)"
    and T': "T' = T\<lparr>cv := relock h s1, parked := filter (\<lambda>p. fst p \<noteq> t) (parked T),
                     results := results T @ [(t, b)]\<rparr>"
    by (auto split: sum.splits)
  from wait_finish_InrD [OF f] assms(2) T' show ?thesis by simp
qed

text \<open>
  Claim C1, as amended. In every state that a schedule reaches from the constructed state
  (where \<open>waiters = wakeups = 0\<close>), \<open>0 \<le> wakeups\<close> and \<open>0 \<le> waiters\<close> hold, and
  \<open>waiters\<close> is the number of threads suspended in wait. Every step keeps
  \<open>wakeups \<le> waiters\<close> (a call of \<^verbatim>\<open>wakeOne\<close> or \<^verbatim>\<open>wakeAll\<close>, the entry of a wait on
  either kind of lock, a spurious return, a wait that returns true), with one exception: a
  wait that ends with a code other than success (timeout or error) decrements
  \<open>waiters\<close> and leaves \<open>wakeups\<close> as it is, so it keeps the bound only when
  \<open>wakeups < waiters\<close> held before.
\<close>

theorem counters_in_reachable_states:
  "(run es (constructed rcm rcc) = Ok S \<longrightarrow>
      0 \<le> wakeups (cv S) \<and> 0 \<le> waiters (cv S) \<and> waiters (cv S) = int (length (parked S)))
   \<and> (step e T = Ok T' \<and> wakeups (cv T) \<le> waiters (cv T)
        \<and> (failing_return e \<longrightarrow> wakeups (cv T) < waiters (cv T))
      \<longrightarrow> wakeups (cv T') \<le> waiters (cv T'))
   \<and> (step (Return t code rcu) T = Ok T' \<and> code \<noteq> 0
      \<longrightarrow> wakeups (cv T') = wakeups (cv T) \<and> waiters (cv T') = waiters (cv T) - 1)
   \<and> waiters (cv (constructed rcm rcc)) = 0 \<and> wakeups (cv (constructed rcm rcc)) = 0"
proof -
  have "accounted S" if "run es (constructed rcm rcc) = Ok S"
    using run_accounted [OF accounted_constructed that] .
  then have "run es (constructed rcm rcc) = Ok S \<longrightarrow>
      0 \<le> wakeups (cv S) \<and> 0 \<le> waiters (cv S) \<and> waiters (cv S) = int (length (parked S))"
    by (simp add: accounted_def)
  moreover have "step e T = Ok T' \<and> wakeups (cv T) \<le> waiters (cv T)
        \<and> (failing_return e \<longrightarrow> wakeups (cv T) < waiters (cv T))
      \<longrightarrow> wakeups (cv T') \<le> waiters (cv T')"
    using step_keeps_bound by blast
  moreover have "step (Return t code rcu) T = Ok T' \<and> code \<noteq> 0
      \<longrightarrow> wakeups (cv T') = wakeups (cv T) \<and> waiters (cv T') = waiters (cv T) - 1"
    using failing_return_at_bound by blast
  ultimately show ?thesis by (simp add: constructed_def)
qed

text \<open>
  The theorem at work: two threads wait, a third calls \<^verbatim>\<open>wakeOne\<close>; the counters are 2
  and 1. From there the timeout of thread 2 leaves them at 1 and 1.
\<close>

theorem counters_in_reachable_states_witness:
  "(case run [WaitQMutex 1 (Some 7) Forever 0, WaitQMutex 2 (Some 7) (Msecs 50) 0, WakeOne 3 0 0 0]
           (constructed 0 0) of
      Ok S \<Rightarrow> wakeups (cv S) = 1 \<and> waiters (cv S) = 2 \<and> length (parked S) = 2
        \<and> (case step (Return 2 ETIMEDOUT 0) S of
              Ok S' \<Rightarrow> wakeups (cv S') \<le> waiters (cv S') \<and> wakeups (cv S') = 1 \<and> waiters (cv S') = 1
            | Abort f \<Rightarrow> False | Impossible \<Rightarrow> False)
    | Abort f \<Rightarrow> False
    | Impossible \<Rightarrow> False)"
proof -
  let ?es = "[WaitQMutex 1 (Some 7) Forever 0, WaitQMutex 2 (Some 7) (Msecs 50) 0, WakeOne 3 0 0 0]"
  obtain S where r: "run ?es (constructed 0 0) = Ok S" and w: "wakeups (cv S) = 1"
    and n: "waiters (cv S) = 2" and p: "map_of (parked S) 2 = Some (HeldQMutex 7, Msecs 50)"
    by (simp add: model_defs)
  obtain S' where s: "step (Return 2 ETIMEDOUT 0) S = Ok S'"
    using p w n by (simp add: model_defs)
  have c: "ETIMEDOUT \<noteq> 0" by (simp add: ETIMEDOUT_def)
  from counters_in_reachable_states [of ?es 0 0 S "Return 2 ETIMEDOUT 0" S S' 2 ETIMEDOUT 0] r s w n c
  have "waiters (cv S) = int (length (parked S))" and "wakeups (cv S') \<le> waiters (cv S')"
    and "wakeups (cv S') = 1" and "waiters (cv S') = 1"
    by simp_all
  with r s w n show ?thesis by simp
qed

text \<open>
  Claim C1 as the spec states it fails. Thread 1 waits with a deadline of 50 ms, thread 2
  calls \<^verbatim>\<open>wakeOne\<close> (\<open>wakeups\<close> becomes 1), and the primitive reports \<^verbatim>\<open>ETIMEDOUT\<close> to
  thread 1, which had timed out and was waiting for the internal mutex. Thread 1 leaves
  with \<open>waiters = 0\<close> and \<open>wakeups = 1\<close>.
\<close>

theorem timeout_leaves_wakeup_behind:
  "counters (run [WaitQMutex 1 (Some 7) (Msecs 50) 0, WakeOne 2 0 0 0, Return 1 ETIMEDOUT 0]
     (constructed 0 0)) = Some (0, 1)"
  by (simp add: model_defs)

section \<open>wakeOne\<close>

text \<open>A thread that starts to wait when no wakeup is pending, while nobody else acts.\<close>

lemma alone_returns:
  assumes "run (map (\<lambda>(code, rcu). Return t code rcu) cs) S = Ok S'"
    and "wakeups (cv S) = 0"
    and "(\<exists>h d. parked S = [(t, h, d)] \<and> waiters (cv S) = 1 \<and> results S = R)
           \<or> (parked S = [] \<and> results S = R @ [(t, False)])"
  shows "wakeups (cv S') = 0 \<and> (results S' = R \<or> results S' = R @ [(t, False)])"
  using assms
proof (induction cs arbitrary: S)
  case Nil
  then show ?case by auto
next
  case (Cons c cs)
  obtain code rcu where c: "c = (code, rcu)" by (cases c)
  from Cons.prems(1) c obtain S1 where s: "step (Return t code rcu) S = Ok S1"
    and r: "run (map (\<lambda>(code, rcu). Return t code rcu) cs) S1 = Ok S'"
    by (auto split: outcome.splits)
  from s have "parked S \<noteq> []" by (auto split: option.splits)
  with Cons.prems(3) obtain h d where p: "parked S = [(t, h, d)]" and w: "waiters (cv S) = 1"
    and e: "results S = R"
    by blast
  show ?case
  proof (cases "code = 0")
    case True
    with s p Cons.prems(2) have "S1 = S\<lparr>cv := block d (cv S)\<rparr>" by simp
    with p w e Cons.prems(2) have "wakeups (cv S1) = 0"
      and "(\<exists>h d. parked S1 = [(t, h, d)] \<and> waiters (cv S1) = 1 \<and> results S1 = R)
           \<or> (parked S1 = [] \<and> results S1 = R @ [(t, False)])"
      by simp_all
    from Cons.IH [OF r this] show ?thesis .
  next
    case False
    from wait_finish_Inr [of "cv S" code rcu] w False obtain s1 where
      f: "wait_finish code rcu (cv S) = Inr (False, s1)" and k: "wakeups s1 = wakeups (cv S)"
      by auto
    with s p False have "S1 = S\<lparr>cv := relock h s1, parked := [], results := results S @ [(t, False)]\<rparr>"
      by simp
    with e k Cons.prems(2) have "wakeups (cv S1) = 0"
      and "(\<exists>h d. parked S1 = [(t, h, d)] \<and> waiters (cv S1) = 1 \<and> results S1 = R)
           \<or> (parked S1 = [] \<and> results S1 = R @ [(t, False)])"
      by simp_all
    from Cons.IH [OF r this] show ?thesis .
  qed
qed

lemma wakeOne_before_waiter:
  assumes reach: "run es (constructed rcm rcc) = Ok S0" and idle: "parked S0 = []"
    and w: "w = WaitQMutex t mutex d rcl \<or> w = WaitQReadWriteLock t rw d rcl"
    and r: "run (WakeOne u a b c # w # map (\<lambda>(code, rcu). Return t code rcu) cs) S0 = Ok S"
  shows "wakeups (cv S) = 0 \<and> (results S = results S0 \<or> results S = results S0 @ [(t, False)])"
proof -
  from reach have acc: "accounted S0" by (rule run_accounted [OF accounted_constructed])
  from r obtain S1 S2 where s1: "step (WakeOne u a b c) S0 = Ok S1" and s2: "step w S1 = Ok S2"
    and rest: "run (map (\<lambda>(code, rcu). Return t code rcu) cs) S2 = Ok S"
    by (auto split: outcome.splits)
  from s1 have S1: "S1 = S0\<lparr>cv := wakeOne a b c (cv S0)\<rparr>" by (auto split: if_splits)
  from acc idle have "waiters (cv S0) = 0" and "0 \<le> wakeups (cv S0)" by (simp_all add: accounted_def)
  with S1 idle have k1: "wakeups (cv S1) = 0" and n1: "waiters (cv S1) = 0" and p1: "parked S1 = []"
    and e1: "results S1 = results S0"
    by (simp_all add: wakeOne_fields)
  from s2 w k1 n1 p1 e1 have "wakeups (cv S2) = 0"
    and "(\<exists>h d. parked S2 = [(t, h, d)] \<and> waiters (cv S2) = 1 \<and> results S2 = results S0)
           \<or> (parked S2 = [] \<and> results S2 = results S0 @ [(t, False)])"
    by (auto split: if_splits option.splits)
  from alone_returns [OF rest this] show ?thesis .
qed

text \<open>
  Claim C4. \<^verbatim>\<open>wakeOne\<close> sets \<open>wakeups\<close> to \<open>min (wakeups + 1) waiters\<close> and leaves
  \<open>waiters\<close> as it is; it makes three calls, the lock of the internal mutex, one signal
  (no broadcast) and the unlock, and raises \<open>wakeups\<close> by one at most. With
  \<open>waiters = 0\<close> (and \<open>wakeups\<close> not negative, as in every state a schedule reaches) it
  leaves \<open>wakeups\<close> at 0. So when \<^verbatim>\<open>wakeOne\<close> is called in a reachable state in which no
  thread is suspended, and a thread \<open>t\<close> then calls wait on either kind of lock, with no
  further wake call while the primitive returns to \<open>t\<close> with whatever codes, \<open>wakeups\<close>
  stays 0 and \<open>t\<close> either is still waiting or has returned false: it never returns true.
\<close>

theorem wakeOne_clamped:
  "wakeups (wakeOne a b c s) = min (wakeups s + 1) (waiters s)
   \<and> waiters (wakeOne a b c s) = waiters s
   \<and> calls (wakeOne a b c s) = calls s @ [pthread_mutex_lock, pthread_cond_signal, pthread_mutex_unlock]
   \<and> wakeups (wakeOne a b c s) \<le> wakeups s + 1
   \<and> (waiters s = 0 \<and> 0 \<le> wakeups s \<longrightarrow> wakeups (wakeOne a b c s) = 0)
   \<and> (run es (constructed rcm rcc) = Ok S0 \<and> parked S0 = []
        \<and> (w = WaitQMutex t mutex d rcl \<or> w = WaitQReadWriteLock t rw d rcl)
        \<and> run (WakeOne u a b c # w # map (\<lambda>(code, rcu). Return t code rcu) cs) S0 = Ok S
      \<longrightarrow> wakeups (cv S) = 0 \<and> (results S = results S0 \<or> results S = results S0 @ [(t, False)]))"
  using wakeOne_before_waiter [of es rcm rcc S0 w t mutex d rcl rw u a b c cs S]
  by (simp add: wakeOne_fields)

text \<open>
  The theorem at work: \<^verbatim>\<open>wakeOne\<close> on the constructed condition variable, then thread 2
  waits for 50 ms; the primitive returns twice with success (both spurious) and then with
  \<^verbatim>\<open>ETIMEDOUT\<close>: thread 2 returns false.
\<close>

theorem wakeOne_clamped_witness:
  "wakeups (wakeOne 0 0 0 (QWaitCondition 0 0)) = 0
   \<and> (case run [WakeOne 1 0 0 0, WaitQMutex 2 (Some 7) (Msecs 50) 0, Return 2 0 0, Return 2 0 0,
                 Return 2 ETIMEDOUT 0] (constructed 0 0) of
        Ok S \<Rightarrow> wakeups (cv S) = 0 \<and> results S = [(2, False)]
      | Abort f \<Rightarrow> False
      | Impossible \<Rightarrow> False)"
proof -
  let ?cs = "[(0, 0), (0, 0), (ETIMEDOUT, 0)]"
  let ?w = "WaitQMutex 2 (Some 7) (Msecs 50) 0"
  obtain S where r: "run (WakeOne 1 0 0 0 # ?w # map (\<lambda>(code, rcu). Return 2 code rcu) ?cs)
      (constructed 0 0) = Ok S" and e: "results S \<noteq> []"
    by (simp add: model_defs)
  have i: "run [] (constructed 0 0) = Ok (constructed 0 0)" "parked (constructed 0 0) = []"
    "results (constructed 0 0) = []" "waiters (QWaitCondition 0 0) = 0" "0 \<le> wakeups (QWaitCondition 0 0)"
    by (simp_all add: constructed_def)
  from wakeOne_clamped [of 0 0 0 "QWaitCondition 0 0" "[]" 0 0 "constructed 0 0" ?w 2 "Some 7" "Msecs 50" 0
      undefined 1 ?cs S] r i e
  have "wakeups (wakeOne 0 0 0 (QWaitCondition 0 0)) = 0" and "wakeups (cv S) = 0"
    and "results S = [(2, False)]"
    by simp_all
  with r show ?thesis by simp
qed

section \<open>A wake call while a thread is suspended\<close>

text \<open>
  The entry of a wait is one step: the thread is counted in \<open>waiters\<close> and has released
  the caller's lock when it is suspended, and no call of another thread comes in between.
  That the internal mutex makes it so is what the step model takes for granted. What the
  counters then give: a \<^verbatim>\<open>wakeOne\<close> or \<^verbatim>\<open>wakeAll\<close> called while a thread is suspended
  leaves \<open>wakeups > 0\<close>, and if the primitive returns success to that thread next, the
  thread returns true.
\<close>

lemma wake_while_suspended:
  assumes reach: "run es (constructed rcm rcc) = Ok S" and p: "is_parked t S"
    and w: "w = WakeOne u a b c \<or> w = WakeAll u a b c" and s: "step w S = Ok S1"
  shows "0 < wakeups (cv S1)
     \<and> (\<exists>S2. step (Return t 0 rcu) S1 = Ok S2 \<and> results S2 = results S1 @ [(t, True)])"
proof -
  from reach have acc: "accounted S" by (rule run_accounted [OF accounted_constructed])
  from p have "parked S \<noteq> []" by (auto simp add: is_parked_def)
  with acc have n: "0 < waiters (cv S)" and k: "0 \<le> wakeups (cv S)" by (simp_all add: accounted_def)
  from s w n k have pos: "0 < wakeups (cv S1)" and p1: "is_parked t S1"
    using p by (auto simp add: wakeOne_fields wakeAll_fields is_parked_def split: if_splits)
  from step_accounted [OF acc s] have "accounted S1" .
  from return_leaves [OF this p1, of 0 rcu] pos show ?thesis by auto
qed

section \<open>The two views agree\<close>

text \<open>
  The wait functions take what the primitive returns, and the counters found then, as
  input; the system produces them. For a thread suspended in a run of the system, the
  call as the wait functions describe it, fed with what the thread finds in that run,
  returns the value the system records for it and leaves the counters of the system.
\<close>

lemma run_append:
  "run (xs @ ys) S = (case run xs S of Ok S' \<Rightarrow> run ys S' | Abort f \<Rightarrow> Abort f | Impossible \<Rightarrow> Impossible)"
  by (induction xs arbitrary: S) (auto split: outcome.splits)

lemma map_of_filter_other: "u \<noteq> t \<Longrightarrow> map_of (filter (\<lambda>p. fst p \<noteq> u) ps) t = map_of ps t"
  by (induction ps) auto

lemma step_other_keeps_frame:
  assumes "caller e \<noteq> t" and "step e S = Ok S'"
  shows "map_of (parked S') t = map_of (parked S) t"
proof (cases e)
  case (WakeOne u a b c)
  with assms show ?thesis by (auto split: if_splits)
next
  case (WakeAll u a b c)
  with assms show ?thesis by (auto split: if_splits)
next
  case (WaitQMutex u mutex d rcl)
  with assms show ?thesis by (auto simp add: map_add_def split: option.splits if_splits)
next
  case (WaitQReadWriteLock u rw d rcl)
  with assms show ?thesis by (auto simp add: map_add_def split: option.splits if_splits)
next
  case (Return u code rcu)
  with assms show ?thesis
    by (auto simp add: map_of_filter_other split: option.splits if_splits sum.splits)
qed

lemma run_others_keep_frame:
  "\<forall>e\<in>set evs. caller e \<noteq> t \<Longrightarrow> run evs S = Ok S' \<Longrightarrow> map_of (parked S') t = map_of (parked S) t"
proof (induction evs arbitrary: S)
  case Nil
  then show ?case by simp
next
  case (Cons e evs)
  from Cons.prems(2) obtain S1 where s: "step e S = Ok S1" and r: "run evs S1 = Ok S'"
    by (auto split: outcome.splits)
  from Cons.prems(1) have "caller e \<noteq> t" and "\<forall>e\<in>set evs. caller e \<noteq> t" by simp_all
  with Cons.IH [OF _ r] step_other_keeps_frame [OF _ s] show ?case by simp
qed

lemma run_interleaved_not_parked:
  assumes "\<not> is_parked t S" and "\<forall>(evs, c)\<in>set segs. \<forall>e\<in>set evs. caller e \<noteq> t"
    and "run (interleaved t rcu segs) S = Ok S'"
  shows "segs = []"
proof (cases segs)
  case Nil
  then show ?thesis .
next
  case (Cons seg rest)
  obtain evs c where seg: "seg = (evs, c)" by (cases seg)
  from assms(3) Cons seg obtain S1 where r: "run evs S = Ok S1"
    and s: "run (Return t c rcu # interleaved t rcu rest) S1 = Ok S'"
    by (auto simp add: run_append split: outcome.splits)
  from assms(2) Cons seg have o: "\<forall>e\<in>set evs. caller e \<noteq> t" by simp
  from assms(1) have "map_of (parked S) t = None" unfolding is_parked_def by blast
  with run_others_keep_frame [OF o r] have "map_of (parked S1) t = None" by simp
  with s show ?thesis by simp
qed

lemma thread_view:
  assumes "map_of (parked T) t = Some (h, d)"
    and "\<forall>(evs, c)\<in>set segs. \<forall>e\<in>set evs. caller e \<noteq> t"
    and "run (interleaved t rcu segs) T = Ok S" and "\<not> is_parked t S"
  shows "\<exists>b s2. QWaitConditionPrivate_wait d (found t rcu segs T) rcu s = Some (Inr (b, s2))
      \<and> waiters s2 = waiters (cv S) \<and> wakeups s2 = wakeups (cv S)
      \<and> results S \<noteq> [] \<and> last (results S) = (t, b)"
  using assms
proof (induction segs arbitrary: T s)
  case Nil
  then show ?case by (simp add: is_parked_def)
next
  case (Cons seg segs)
  obtain evs c where seg: "seg = (evs, c)" by (cases seg)
  from Cons.prems(3) seg obtain T1 T2 where r: "run evs T = Ok T1"
    and st: "step (Return t c rcu) T1 = Ok T2"
    and rest: "run (interleaved t rcu segs) T2 = Ok S"
    by (auto simp add: run_append split: outcome.splits)
  from Cons.prems(2) seg have o: "\<forall>e\<in>set evs. caller e \<noteq> t"
    and os: "\<forall>(evs, c)\<in>set segs. \<forall>e\<in>set evs. caller e \<noteq> t"
    by simp_all
  from run_others_keep_frame [OF o r] Cons.prems(1) have p1: "map_of (parked T1) t = Some (h, d)"
    by simp
  let ?r = "\<lparr>rc = c, waiters_now = waiters (cv T1), wakeups_now = wakeups (cv T1)\<rparr>"
  have fo: "found t rcu (seg # segs) T = ?r # found t rcu segs T2"
    using seg r st by simp
  show ?case
  proof (cases "c = 0 \<and> wakeups (cv T1) = 0")
    case True
    with st p1 have T2: "T2 = T1\<lparr>cv := block d (cv T1)\<rparr>" by simp
    with p1 have p2: "map_of (parked T2) t = Some (h, d)" by simp
    have "spurious ?r" using True by (simp add: spurious_def)
    then have "wait_loop d (?r # found t rcu segs T2) s
        = wait_loop d (found t rcu segs T2) (resume ?r (block d s))"
      by (rule wait_loop_spurious)
    with Cons.IH [OF p2 os rest Cons.prems(4), of "resume ?r (block d s)"] show ?thesis
      unfolding QWaitConditionPrivate_wait_def fo by simp
  next
    case False
    with st p1 obtain b s1 where f: "wait_finish c rcu (cv T1) = Inr (b, s1)"
      and T2: "T2 = T1\<lparr>cv := relock h s1, parked := filter (\<lambda>p. fst p \<noteq> t) (parked T1),
                       results := results T1 @ [(t, b)]\<rparr>"
      by (auto split: sum.splits)
    from T2 have "\<not> is_parked t T2" by (simp add: is_parked_def map_of_filter_key)
    from run_interleaved_not_parked [OF this os rest] rest have S: "S = T2" by simp
    have "\<not> spurious ?r" using False by (simp add: spurious_def)
    then have loop: "wait_loop d (?r # found t rcu segs T2) s = Some (c, resume ?r (block d s))"
      using wait_loop_real [of ?r d "found t rcu segs T2" s] by simp
    from wait_finish_InrD [OF f] have "0 < waiters (resume ?r (block d s))"
      and "c = 0 \<longrightarrow> 0 < wakeups (resume ?r (block d s))" and b: "b = (c = 0)"
      and w1: "waiters s1 = waiters (cv T1) - 1"
      and k1: "wakeups s1 = (if c = 0 then wakeups (cv T1) - 1 else wakeups (cv T1))"
      by simp_all
    from wait_finish_Inr [OF this(1,2), of rcu] obtain s2 where
      "wait_finish c rcu (resume ?r (block d s)) = Inr (c = 0, s2)"
      and "waiters s2 = waiters (cv T1) - 1"
      and "wakeups s2 = (if c = 0 then wakeups (cv T1) - 1 else wakeups (cv T1))"
      by auto
    with S T2 b w1 k1 show ?thesis
      unfolding QWaitConditionPrivate_wait_def fo loop by simp
  qed
qed

text \<open>The same for the whole call, from its entry, on a mutex and on a read-write lock.\<close>

lemma wait_QMutex_in_system:
  assumes e: "step (WaitQMutex t (Some m) d rcl) S0 = Ok T"
    and o: "\<forall>(evs, c)\<in>set segs. \<forall>e\<in>set evs. caller e \<noteq> t"
    and r: "run (interleaved t rcu segs) T = Ok S" and l: "\<not> is_parked t S"
  shows "\<exists>b s'. wait_QMutex (Some m) d
           \<lparr>rc_lock = rcl, returns = found t rcu segs T, rc_unlock = rcu\<rparr> (cv S0) = Some (Inr (b, s'))
      \<and> waiters s' = waiters (cv S) \<and> wakeups s' = wakeups (cv S) \<and> last (results S) = (t, b)"
proof -
  from e have np: "\<not> is_parked t S0" by (auto split: if_splits)
  then have n: "map_of (parked S0) t = None" unfolding is_parked_def by blast
  from e np have T: "T = S0\<lparr>cv := block d (enter_QMutex m rcl (cv S0)),
                  parked := parked S0 @ [(t, HeldQMutex m, d)]\<rparr>"
    by simp
  with n have p: "map_of (parked T) t = Some (HeldQMutex m, d)"
    by (simp add: map_add_Some_iff)
  from thread_view [OF p o r l, of "enter_QMutex m rcl (cv S0)"] show ?thesis
    by (auto simp add: wait_QMutex_def)
qed

lemma wait_QReadWriteLock_in_system:
  assumes v: "p = LockedForRead \<or> p = LockedForWrite"
    and e: "step (WaitQReadWriteLock t (Some (l, p)) d rcl) S0 = Ok T"
    and o: "\<forall>(evs, c)\<in>set segs. \<forall>e\<in>set evs. caller e \<noteq> t"
    and r: "run (interleaved t rcu segs) T = Ok S" and n: "\<not> is_parked t S"
  shows "\<exists>b s'. wait_QReadWriteLock (Some (l, p)) d
           \<lparr>rc_lock = rcl, returns = found t rcu segs T, rc_unlock = rcu\<rparr> (cv S0) = Some (Inr (b, s'))
      \<and> waiters s' = waiters (cv S) \<and> wakeups s' = wakeups (cv S) \<and> last (results S) = (t, b)"
proof -
  from e have np: "\<not> is_parked t S0" by (auto split: if_splits)
  then have m: "map_of (parked S0) t = None" unfolding is_parked_def by blast
  from e np v have T: "T = S0\<lparr>cv := block d (enter_QReadWriteLock l rcl (cv S0)),
                  parked := parked S0 @ [(t, HeldQReadWriteLock l p, d)]\<rparr>"
    by auto
  with m have q: "map_of (parked T) t = Some (HeldQReadWriteLock l p, d)"
    by (simp add: map_add_Some_iff)
  from thread_view [OF q o r n, of "enter_QReadWriteLock l rcl (cv S0)"] v show ?thesis
    by (auto simp add: wait_QReadWriteLock_def relock_QReadWriteLock_def)
qed

text \<open>
  When the other threads do nothing in between, the two views give the very same state,
  calls and diagnostics included.
\<close>

lemma resume_same:
  "resume \<lparr>rc = c, waiters_now = waiters s, wakeups_now = wakeups s\<rparr> s = s"
  by (simp add: resume_def)

lemma run_Return_not_parked:
  "\<not> is_parked t S \<Longrightarrow> run (map (\<lambda>c. Return t c rcu) codes) S = Ok S' \<Longrightarrow> codes = [] \<and> S' = S"
  by (cases codes) (auto simp add: is_parked_def split: option.splits)

lemma suspended_alone:
  assumes "map_of (parked T) t = Some (h, d)" and "cv T = block d s"
    and "run (map (\<lambda>c. Return t c rcu) codes) T = Ok S" and "\<not> is_parked t S"
  shows "\<exists>b s2. QWaitConditionPrivate_wait d
            (map (\<lambda>c. \<lparr>rc = c, waiters_now = waiters s, wakeups_now = wakeups s\<rparr>) codes) rcu s
          = Some (Inr (b, s2))
      \<and> cv S = relock h s2 \<and> results S = results T @ [(t, b)]"
  using assms
proof (induction codes arbitrary: T s)
  case Nil
  then show ?case by (simp add: is_parked_def)
next
  case (Cons c cs)
  let ?mk = "\<lambda>c. \<lparr>rc = c, waiters_now = waiters s, wakeups_now = wakeups s\<rparr>"
  from Cons.prems(3) obtain T1 where s: "step (Return t c rcu) T = Ok T1"
    and r: "run (map (\<lambda>c. Return t c rcu) cs) T1 = Ok S"
    by (auto split: outcome.splits)
  have res: "resume (?mk c) (block d s) = block d s"
    using resume_same [of c "block d s"] by simp
  show ?case
  proof (cases "c = 0 \<and> wakeups s = 0")
    case True
    with s Cons.prems(1,2) have T1: "T1 = T\<lparr>cv := block d (block d s)\<rparr>" by simp
    then have p1: "map_of (parked T1) t = Some (h, d)" and c1: "cv T1 = block d (block d s)"
      using Cons.prems(1) by simp_all
    have "wait_loop d (map ?mk (c # cs)) s = wait_loop d (map ?mk cs) (resume (?mk c) (block d s))"
      using True by (simp add: Let_def)
    then have loop: "wait_loop d (map ?mk (c # cs)) s = wait_loop d (map ?mk cs) (block d s)"
      by (simp only: res)
    from Cons.IH [OF p1 c1 r Cons.prems(4)] T1 show ?thesis
      unfolding QWaitConditionPrivate_wait_def loop by simp
  next
    case False
    with s Cons.prems(1,2) obtain b s2 where f: "wait_finish c rcu (block d s) = Inr (b, s2)"
      and T1: "T1 = T\<lparr>cv := relock h s2, parked := filter (\<lambda>p. fst p \<noteq> t) (parked T),
                       results := results T @ [(t, b)]\<rparr>"
      by (auto split: sum.splits)
    from T1 have "\<not> is_parked t T1" by (simp add: is_parked_def map_of_filter_key)
    from run_Return_not_parked [OF this r] have S: "S = T1" by simp
    have "wait_loop d (map ?mk (c # cs)) s = Some (c, resume (?mk c) (block d s))"
      using False by (auto simp add: Let_def)
    then have loop: "wait_loop d (map ?mk (c # cs)) s = Some (c, block d s)"
      by (simp only: res)
    from S T1 f show ?thesis
      unfolding QWaitConditionPrivate_wait_def loop by simp
  qed
qed

lemma thread_alone_QMutex:
  assumes "\<not> is_parked t S0"
    and "run (WaitQMutex t (Some m) d rcl # map (\<lambda>c. Return t c rcu) codes) S0 = Ok S"
    and "\<not> is_parked t S"
  shows "\<exists>b. wait_QMutex (Some m) d
           \<lparr>rc_lock = rcl,
            returns = map (\<lambda>c. \<lparr>rc = c, waiters_now = waiters (cv S0) + 1, wakeups_now = wakeups (cv S0)\<rparr>) codes,
            rc_unlock = rcu\<rparr> (cv S0) = Some (Inr (b, cv S))
        \<and> results S = results S0 @ [(t, b)]"
proof -
  let ?s = "enter_QMutex m rcl (cv S0)"
  let ?T = "S0\<lparr>cv := block d ?s, parked := parked S0 @ [(t, HeldQMutex m, d)]\<rparr>"
  from assms(1,2) have r: "run (map (\<lambda>c. Return t c rcu) codes) ?T = Ok S" by simp
  from assms(1) have "map_of (parked S0) t = None" unfolding is_parked_def by blast
  then have p: "map_of (parked ?T) t = Some (HeldQMutex m, d)"
    by (simp add: map_add_Some_iff)
  have c: "cv ?T = block d ?s" by simp
  from suspended_alone [OF p c r assms(3)] show ?thesis
    by (auto simp add: wait_QMutex_def relock_def)
qed

lemma thread_alone_QReadWriteLock:
  assumes "\<not> is_parked t S0" and "p = LockedForRead \<or> p = LockedForWrite"
    and "run (WaitQReadWriteLock t (Some (l, p)) d rcl # map (\<lambda>c. Return t c rcu) codes) S0 = Ok S"
    and "\<not> is_parked t S"
  shows "\<exists>b. wait_QReadWriteLock (Some (l, p)) d
           \<lparr>rc_lock = rcl,
            returns = map (\<lambda>c. \<lparr>rc = c, waiters_now = waiters (cv S0) + 1, wakeups_now = wakeups (cv S0)\<rparr>) codes,
            rc_unlock = rcu\<rparr> (cv S0) = Some (Inr (b, cv S))
        \<and> results S = results S0 @ [(t, b)]"
proof -
  let ?s = "enter_QReadWriteLock l rcl (cv S0)"
  let ?T = "S0\<lparr>cv := block d ?s, parked := parked S0 @ [(t, HeldQReadWriteLock l p, d)]\<rparr>"
  from assms(1,2,3) have r: "run (map (\<lambda>c. Return t c rcu) codes) ?T = Ok S" by auto
  from assms(1) have "map_of (parked S0) t = None" unfolding is_parked_def by blast
  then have q: "map_of (parked ?T) t = Some (HeldQReadWriteLock l p, d)"
    by (simp add: map_add_Some_iff)
  have c: "cv ?T = block d ?s" by simp
  from suspended_alone [OF q c r assms(4)] assms(2) show ?thesis
    by (auto simp add: wait_QReadWriteLock_def relock_def)
qed

section \<open>Every completed wait: the decrements and the assertions\<close>

text \<open>
  A call of wait with a lock that passes the checks, and the event in which thread \<open>u\<close>
  makes that call, are written \<open>W\<close> and \<open>w\<close> below. What follows holds for the wait on a
  mutex and for the wait on a read-write lock held for reading or for writing.
\<close>

lemma wait_counters_when:
  assumes W: "W = wait_QMutex (Some m) \<or> W = wait_QReadWriteLock (Some (l, LockedForRead))
      \<or> W = wait_QReadWriteLock (Some (l, LockedForWrite))"
    and r: "W d os s0 = Some (Inr (b, s'))"
  shows "\<exists>pre r rest. returns os = pre @ r # rest \<and> list_all spurious pre \<and> \<not> spurious r
          \<and> 0 < waiters_now r \<and> b = (rc r = 0) \<and> (b \<longrightarrow> 0 < wakeups_now r)
          \<and> waiters s' = waiters_now r - 1
          \<and> wakeups s' = (if b then wakeups_now r - 1 else wakeups_now r)"
proof -
  from wait_shape [OF W] obtain enter leave where
    shape: "\<And>d os s0. W d os s0 =
       passed leave (QWaitConditionPrivate_wait d (returns os) (rc_unlock os) (enter (rc_lock os) s0))"
    and leave: "\<And>s. wakeups (leave s) = wakeups s" "\<And>s. waiters (leave s) = waiters s"
    by blast
  from r obtain s1 where
    p: "QWaitConditionPrivate_wait d (returns os) (rc_unlock os) (enter (rc_lock os) s0) = Some (Inr (b, s1))"
    and s': "s' = leave s1"
    by (auto simp add: shape passed_def split: option.splits sum.splits)
  from Private_wait_returns [OF p] obtain r rest where
    d: "dropWhile spurious (returns os) = r # rest" and b: "b = (rc r = 0)"
    and n: "0 < waiters_now r" and k: "rc r = 0 \<longrightarrow> 0 < wakeups_now r"
    and n1: "waiters s1 = waiters_now r - 1"
    and w: "wakeups s1 = (if rc r = 0 then wakeups_now r - 1 else wakeups_now r)"
    by blast
  from d obtain pre where pre: "returns os = pre @ r # rest" "list_all spurious pre" "\<not> spurious r"
    by (auto simp add: split_at_first_real)
  have "0 < waiters_now r \<and> b = (rc r = 0) \<and> (b \<longrightarrow> 0 < wakeups_now r)
          \<and> waiters s' = waiters_now r - 1
          \<and> wakeups s' = (if b then wakeups_now r - 1 else wakeups_now r)"
    using b n k n1 w s' leave by simp
  with pre show ?thesis by blast
qed

lemma wait_asserts:
  assumes W: "W = wait_QMutex (Some m) \<or> W = wait_QReadWriteLock (Some (l, LockedForRead))
      \<or> W = wait_QReadWriteLock (Some (l, LockedForWrite))"
    and os: "returns os = pre @ r # rest" "list_all spurious pre" "\<not> spurious r"
  shows "(waiters_now r \<le> 0 \<longrightarrow>
            W d os s0 = Some (Inl (Q_ASSERT_X ''QWaitCondition::wait'' ''internal error (waiters)'')))
     \<and> (0 < waiters_now r \<and> rc r = 0 \<and> wakeups_now r \<le> 0 \<longrightarrow>
            W d os s0 = Some (Inl (Q_ASSERT_X ''QWaitCondition::wait'' ''internal error (wakeups)'')))"
proof -
  from wait_shape [OF W] obtain enter leave where
    shape: "\<And>d os s0. W d os s0 =
       passed leave (QWaitConditionPrivate_wait d (returns os) (rc_unlock os) (enter (rc_lock os) s0))"
    by blast
  from os have d: "dropWhile spurious (returns os) = r # rest"
    using split_at_first_real [of "returns os" r rest] by blast
  show ?thesis
    unfolding shape Private_wait_eq [OF d]
    by (simp add: passed_def wait_finish_def Let_def)
qed

text \<open>
  In the system, what a suspended thread finds at the returns of its primitive never makes
  an assertion of its call fail.
\<close>

lemma found_never_aborts:
  assumes "accounted T" and "map_of (parked T) t = Some (h, d)"
    and "\<forall>(evs, c)\<in>set segs. \<forall>e\<in>set evs. caller e \<noteq> t"
  shows "QWaitConditionPrivate_wait d (found t rcu segs T) rcu s \<noteq> Some (Inl f)"
  using assms
proof (induction segs arbitrary: T s)
  case Nil
  show ?case by (simp add: QWaitConditionPrivate_wait_def)
next
  case (Cons seg segs)
  obtain evs c where seg: "seg = (evs, c)" by (cases seg)
  from Cons.prems(3) seg have o: "\<forall>e\<in>set evs. caller e \<noteq> t"
    and os: "\<forall>(evs, c)\<in>set segs. \<forall>e\<in>set evs. caller e \<noteq> t"
    by simp_all
  show ?case
  proof (cases "run evs T")
    case (Ok T1)
    from run_accounted [OF Cons.prems(1) Ok] have a1: "accounted T1" .
    from run_others_keep_frame [OF o Ok] Cons.prems(2) have p1: "map_of (parked T1) t = Some (h, d)"
      by simp
    let ?r = "\<lparr>rc = c, waiters_now = waiters (cv T1), wakeups_now = wakeups (cv T1)\<rparr>"
    show ?thesis
    proof (cases "c = 0 \<and> wakeups (cv T1) = 0")
      case True
      let ?T2 = "T1\<lparr>cv := block d (cv T1)\<rparr>"
      from True p1 have st: "step (Return t c rcu) T1 = Ok ?T2" by simp
      from step_accounted [OF a1 st] have a2: "accounted ?T2" .
      from p1 have p2: "map_of (parked ?T2) t = Some (h, d)" by simp
      have fo: "found t rcu (seg # segs) T = ?r # found t rcu segs ?T2"
        using seg Ok st by simp
      have "spurious ?r" using True by (simp add: spurious_def)
      then have "wait_loop d (?r # found t rcu segs ?T2) s
          = wait_loop d (found t rcu segs ?T2) (resume ?r (block d s))"
        by (rule wait_loop_spurious)
      with Cons.IH [OF a2 p2 os, of "resume ?r (block d s)"] show ?thesis
        unfolding QWaitConditionPrivate_wait_def fo by simp
    next
      case False
      obtain rest where fo: "found t rcu (seg # segs) T = ?r # rest"
        using seg Ok by simp
      have "\<not> spurious ?r" using False by (simp add: spurious_def)
      then have loop: "wait_loop d (?r # rest) s = Some (c, resume ?r (block d s))"
        using wait_loop_real [of ?r d rest s] by simp
      from p1 have "parked T1 \<noteq> []" by auto
      with a1 have n: "0 < waiters (resume ?r (block d s))" by (simp add: accounted_def)
      from a1 False have k: "c = 0 \<longrightarrow> 0 < wakeups (resume ?r (block d s))"
        by (auto simp add: accounted_def)
      from wait_finish_Inr [OF n k, of rcu] obtain s2 where
        "wait_finish c rcu (resume ?r (block d s)) = Inr (c = 0, s2)"
        by blast
      then show ?thesis
        unfolding QWaitConditionPrivate_wait_def fo loop by simp
    qed
  next
    case (Abort g)
    with seg have "found t rcu (seg # segs) T = []" by simp
    then show ?thesis by (simp add: QWaitConditionPrivate_wait_def)
  next
    case Impossible
    with seg have "found t rcu (seg # segs) T = []" by simp
    then show ?thesis by (simp add: QWaitConditionPrivate_wait_def)
  qed
qed

lemma wait_in_system_never_aborts:
  assumes W: "W = wait_QMutex (Some m) \<and> w = WaitQMutex u (Some m)
      \<or> (p = LockedForRead \<or> p = LockedForWrite)
        \<and> W = wait_QReadWriteLock (Some (l, p)) \<and> w = WaitQReadWriteLock u (Some (l, p))"
    and a: "accounted S0" and e: "step (w d rcl) S0 = Ok T"
    and o: "\<forall>(evs, c)\<in>set segs. \<forall>e\<in>set evs. caller e \<noteq> u"
  shows "W d \<lparr>rc_lock = rcl, returns = found u rcu segs T, rc_unlock = rcu\<rparr> (cv S0) \<noteq> Some (Inl f)"
proof -
  from step_accounted [OF a e] have aT: "accounted T" .
  from W consider (mutex) "W = wait_QMutex (Some m)" "w = WaitQMutex u (Some m)"
    | (rw) "p = LockedForRead \<or> p = LockedForWrite" "W = wait_QReadWriteLock (Some (l, p))"
        "w = WaitQReadWriteLock u (Some (l, p))"
    by blast
  then show ?thesis
  proof cases
    case mutex
    from e mutex have np: "\<not> is_parked u S0" by (auto split: if_splits)
    then have n: "map_of (parked S0) u = None" unfolding is_parked_def by blast
    from e np mutex have "T = S0\<lparr>cv := block d (enter_QMutex m rcl (cv S0)),
                    parked := parked S0 @ [(u, HeldQMutex m, d)]\<rparr>"
      by simp
    with n have q: "map_of (parked T) u = Some (HeldQMutex m, d)"
      by (simp add: map_add_Some_iff)
    from found_never_aborts [OF aT q o, of rcu "enter_QMutex m rcl (cv S0)" f] mutex show ?thesis
      by (auto simp add: wait_QMutex_def split: option.splits sum.splits)
  next
    case rw
    from e rw have np: "\<not> is_parked u S0" by (auto split: if_splits)
    then have n: "map_of (parked S0) u = None" unfolding is_parked_def by blast
    from e np rw have "T = S0\<lparr>cv := block d (enter_QReadWriteLock l rcl (cv S0)),
                    parked := parked S0 @ [(u, HeldQReadWriteLock l p, d)]\<rparr>"
      by auto
    with n have q: "map_of (parked T) u = Some (HeldQReadWriteLock l p, d)"
      by (simp add: map_add_Some_iff)
    from found_never_aborts [OF aT q o, of rcu "enter_QReadWriteLock l rcl (cv S0)" f] rw show ?thesis
      by (auto simp add: wait_QReadWriteLock_def split: option.splits sum.splits)
  qed
qed

lemma wait_in_system_completes:
  assumes W: "W = wait_QMutex (Some m) \<and> w = WaitQMutex u (Some m)
      \<or> (p = LockedForRead \<or> p = LockedForWrite)
        \<and> W = wait_QReadWriteLock (Some (l, p)) \<and> w = WaitQReadWriteLock u (Some (l, p))"
    and e: "step (w d rcl) S0 = Ok T"
    and o: "\<forall>(evs, c)\<in>set segs. \<forall>e\<in>set evs. caller e \<noteq> u"
    and r: "run (interleaved u rcu segs) T = Ok S1" and n: "\<not> is_parked u S1"
  shows "\<exists>b1 s1. W d \<lparr>rc_lock = rcl, returns = found u rcu segs T, rc_unlock = rcu\<rparr> (cv S0)
          = Some (Inr (b1, s1))
      \<and> waiters s1 = waiters (cv S1) \<and> wakeups s1 = wakeups (cv S1) \<and> last (results S1) = (u, b1)"
proof -
  from W consider (mutex) "W = wait_QMutex (Some m)" "w = WaitQMutex u (Some m)"
    | (rw) "p = LockedForRead \<or> p = LockedForWrite" "W = wait_QReadWriteLock (Some (l, p))"
        "w = WaitQReadWriteLock u (Some (l, p))"
    by blast
  then show ?thesis
  proof cases
    case mutex
    from e mutex have "step (WaitQMutex u (Some m) d rcl) S0 = Ok T" by simp
    from wait_QMutex_in_system [OF this o r n] mutex show ?thesis by simp
  next
    case rw
    from e rw have "step (WaitQReadWriteLock u (Some (l, p)) d rcl) S0 = Ok T" by simp
    from wait_QReadWriteLock_in_system [OF rw(1) this o r n] rw show ?thesis by simp
  qed
qed

text \<open>
  Claim C6. \<open>W\<close> is a wait on a mutex or on a read-write lock held for reading or for
  writing, and \<open>w\<close> the event in which thread \<open>u\<close> calls it.
  \<^item> A call that returns has ended at the first return \<open>r\<close> of the primitive that was not
    spurious. Both assertions passed there (\<open>waiters > 0\<close>, and \<open>wakeups > 0\<close> when the
    call returns true), and the call leaves \<open>waiters\<close> exactly one below what it found at
    that return; it returns true exactly when the code was success, and leaves \<open>wakeups\<close>
    exactly one below what it found exactly in that case, unchanged otherwise.
  \<^item> When the call finds \<open>waiters \<le> 0\<close> at that return the first assertion fails, and
    when it finds \<open>wakeups \<le> 0\<close> with the code success the second one fails: the call
    ends in the failed assertion, no counter goes below zero.
  \<^item> In every state that a schedule reaches from the constructed state, a suspended
    thread whose primitive returns, not spuriously, completes its wait with these
    decrements, and no schedule ends in a failed assertion.
  \<^item> A thread \<open>u\<close> that calls \<open>W\<close> in a state reached from the constructed state, while
    other threads do what they like between the returns of its primitive: the call, fed
    with what \<open>u\<close> finds at those returns, does not end in a failed assertion; and when
    \<open>u\<close> has left the wait in the system, the call returns the value recorded for \<open>u\<close>
    and leaves the counters of the system.
  \<^item> The end of \<^verbatim>\<open>QWaitConditionPrivate::wait\<close> by itself: with \<open>waiters \<le> 0\<close> the
    first assertion fails, with \<open>wakeups \<le> 0\<close> and the code success the second one.
\<close>

theorem wait_decrements:
  assumes W: "W = wait_QMutex (Some m) \<and> w = WaitQMutex u (Some m)
      \<or> (p = LockedForRead \<or> p = LockedForWrite)
        \<and> W = wait_QReadWriteLock (Some (l, p)) \<and> w = WaitQReadWriteLock u (Some (l, p))"
  shows "(W d os s0 = Some (Inr (b, s')) \<longrightarrow>
      (\<exists>pre r rest. returns os = pre @ r # rest \<and> list_all spurious pre \<and> \<not> spurious r
          \<and> 0 < waiters_now r \<and> b = (rc r = 0) \<and> (b \<longrightarrow> 0 < wakeups_now r)
          \<and> waiters s' = waiters_now r - 1
          \<and> wakeups s' = (if b then wakeups_now r - 1 else wakeups_now r)))
   \<and> (returns os = pre @ r # rest \<and> list_all spurious pre \<and> \<not> spurious r \<and> waiters_now r \<le> 0 \<longrightarrow>
        W d os s0 = Some (Inl (Q_ASSERT_X ''QWaitCondition::wait'' ''internal error (waiters)'')))
   \<and> (returns os = pre @ r # rest \<and> list_all spurious pre \<and> \<not> spurious r
        \<and> 0 < waiters_now r \<and> rc r = 0 \<and> wakeups_now r \<le> 0 \<longrightarrow>
        W d os s0 = Some (Inl (Q_ASSERT_X ''QWaitCondition::wait'' ''internal error (wakeups)'')))
   \<and> (run es (constructed rcm rcc) = Ok S \<and> is_parked t S \<and> \<not> (code = 0 \<and> wakeups (cv S) = 0) \<longrightarrow>
      (\<exists>S'. step (Return t code rcu) S = Ok S' \<and> \<not> is_parked t S'
         \<and> results S' = results S @ [(t, code = 0)]
         \<and> waiters (cv S') = waiters (cv S) - 1
         \<and> wakeups (cv S') = (if code = 0 then wakeups (cv S) - 1 else wakeups (cv S))))
   \<and> run es (constructed rcm rcc) \<noteq> Abort f
   \<and> (run es (constructed rcm rcc) = Ok S0 \<and> step (w d rcl) S0 = Ok T
        \<and> (\<forall>(evs, c)\<in>set segs. \<forall>e\<in>set evs. caller e \<noteq> u) \<longrightarrow>
      W d \<lparr>rc_lock = rcl, returns = found u rcu segs T, rc_unlock = rcu\<rparr> (cv S0) \<noteq> Some (Inl f))
   \<and> (run es (constructed rcm rcc) = Ok S0 \<and> step (w d rcl) S0 = Ok T
        \<and> (\<forall>(evs, c)\<in>set segs. \<forall>e\<in>set evs. caller e \<noteq> u)
        \<and> run (interleaved u rcu segs) T = Ok S1 \<and> \<not> is_parked u S1 \<longrightarrow>
      (\<exists>b1 s1. W d \<lparr>rc_lock = rcl, returns = found u rcu segs T, rc_unlock = rcu\<rparr> (cv S0)
            = Some (Inr (b1, s1))
         \<and> waiters s1 = waiters (cv S1) \<and> wakeups s1 = wakeups (cv S1)
         \<and> last (results S1) = (u, b1)))
   \<and> (waiters s \<le> 0 \<longrightarrow>
        wait_finish code rcu s = Inl (Q_ASSERT_X ''QWaitCondition::wait'' ''internal error (waiters)''))
   \<and> (0 < waiters s \<and> code = 0 \<and> wakeups s \<le> 0 \<longrightarrow>
        wait_finish code rcu s = Inl (Q_ASSERT_X ''QWaitCondition::wait'' ''internal error (wakeups)''))"
proof -
  from W have W3: "W = wait_QMutex (Some m) \<or> W = wait_QReadWriteLock (Some (l, LockedForRead))
      \<or> W = wait_QReadWriteLock (Some (l, LockedForWrite))"
    by blast
  have c1: "W d os s0 = Some (Inr (b, s')) \<longrightarrow>
      (\<exists>pre r rest. returns os = pre @ r # rest \<and> list_all spurious pre \<and> \<not> spurious r
          \<and> 0 < waiters_now r \<and> b = (rc r = 0) \<and> (b \<longrightarrow> 0 < wakeups_now r)
          \<and> waiters s' = waiters_now r - 1
          \<and> wakeups s' = (if b then wakeups_now r - 1 else wakeups_now r))"
    using wait_counters_when [OF W3] by blast
  have c2: "returns os = pre @ r # rest \<and> list_all spurious pre \<and> \<not> spurious r \<and> waiters_now r \<le> 0 \<longrightarrow>
        W d os s0 = Some (Inl (Q_ASSERT_X ''QWaitCondition::wait'' ''internal error (waiters)''))"
    using wait_asserts [OF W3, of os pre r rest d s0] by blast
  have c3: "returns os = pre @ r # rest \<and> list_all spurious pre \<and> \<not> spurious r
        \<and> 0 < waiters_now r \<and> rc r = 0 \<and> wakeups_now r \<le> 0 \<longrightarrow>
        W d os s0 = Some (Inl (Q_ASSERT_X ''QWaitCondition::wait'' ''internal error (wakeups)''))"
    using wait_asserts [OF W3, of os pre r rest d s0] by blast
  have c4: "run es (constructed rcm rcc) = Ok S \<and> is_parked t S \<and> \<not> (code = 0 \<and> wakeups (cv S) = 0) \<longrightarrow>
      (\<exists>S'. step (Return t code rcu) S = Ok S' \<and> \<not> is_parked t S'
         \<and> results S' = results S @ [(t, code = 0)]
         \<and> waiters (cv S') = waiters (cv S) - 1
         \<and> wakeups (cv S') = (if code = 0 then wakeups (cv S) - 1 else wakeups (cv S)))"
  proof
    assume a: "run es (constructed rcm rcc) = Ok S \<and> is_parked t S \<and> \<not> (code = 0 \<and> wakeups (cv S) = 0)"
    then have "accounted S" using run_accounted [OF accounted_constructed] by blast
    from return_leaves [OF this, of t code rcu] a
    show "\<exists>S'. step (Return t code rcu) S = Ok S' \<and> \<not> is_parked t S'
         \<and> results S' = results S @ [(t, code = 0)]
         \<and> waiters (cv S') = waiters (cv S) - 1
         \<and> wakeups (cv S') = (if code = 0 then wakeups (cv S) - 1 else wakeups (cv S))"
      by blast
  qed
  have c5: "run es (constructed rcm rcc) \<noteq> Abort f"
    by (rule run_no_abort [OF accounted_constructed])
  have c6: "run es (constructed rcm rcc) = Ok S0 \<and> step (w d rcl) S0 = Ok T
        \<and> (\<forall>(evs, c)\<in>set segs. \<forall>e\<in>set evs. caller e \<noteq> u) \<longrightarrow>
      W d \<lparr>rc_lock = rcl, returns = found u rcu segs T, rc_unlock = rcu\<rparr> (cv S0) \<noteq> Some (Inl f)"
  proof
    assume a: "run es (constructed rcm rcc) = Ok S0 \<and> step (w d rcl) S0 = Ok T
        \<and> (\<forall>(evs, c)\<in>set segs. \<forall>e\<in>set evs. caller e \<noteq> u)"
    then have acc: "accounted S0" using run_accounted [OF accounted_constructed] by blast
    from a have e: "step (w d rcl) S0 = Ok T"
      and o: "\<forall>(evs, c)\<in>set segs. \<forall>e\<in>set evs. caller e \<noteq> u"
      by blast+
    show "W d \<lparr>rc_lock = rcl, returns = found u rcu segs T, rc_unlock = rcu\<rparr> (cv S0) \<noteq> Some (Inl f)"
      by (rule wait_in_system_never_aborts [OF W acc e o])
  qed
  have c7: "run es (constructed rcm rcc) = Ok S0 \<and> step (w d rcl) S0 = Ok T
        \<and> (\<forall>(evs, c)\<in>set segs. \<forall>e\<in>set evs. caller e \<noteq> u)
        \<and> run (interleaved u rcu segs) T = Ok S1 \<and> \<not> is_parked u S1 \<longrightarrow>
      (\<exists>b1 s1. W d \<lparr>rc_lock = rcl, returns = found u rcu segs T, rc_unlock = rcu\<rparr> (cv S0)
            = Some (Inr (b1, s1))
         \<and> waiters s1 = waiters (cv S1) \<and> wakeups s1 = wakeups (cv S1)
         \<and> last (results S1) = (u, b1))"
  proof
    assume a: "run es (constructed rcm rcc) = Ok S0 \<and> step (w d rcl) S0 = Ok T
        \<and> (\<forall>(evs, c)\<in>set segs. \<forall>e\<in>set evs. caller e \<noteq> u)
        \<and> run (interleaved u rcu segs) T = Ok S1 \<and> \<not> is_parked u S1"
    then have e: "step (w d rcl) S0 = Ok T"
      and o: "\<forall>(evs, c)\<in>set segs. \<forall>e\<in>set evs. caller e \<noteq> u"
      and r: "run (interleaved u rcu segs) T = Ok S1" and n: "\<not> is_parked u S1"
      by blast+
    show "\<exists>b1 s1. W d \<lparr>rc_lock = rcl, returns = found u rcu segs T, rc_unlock = rcu\<rparr> (cv S0)
            = Some (Inr (b1, s1))
         \<and> waiters s1 = waiters (cv S1) \<and> wakeups s1 = wakeups (cv S1)
         \<and> last (results S1) = (u, b1)"
      by (rule wait_in_system_completes [OF W e o r n])
  qed
  have c8: "waiters s \<le> 0 \<longrightarrow>
        wait_finish code rcu s = Inl (Q_ASSERT_X ''QWaitCondition::wait'' ''internal error (waiters)'')"
    by (simp add: wait_finish_def)
  have c9: "0 < waiters s \<and> code = 0 \<and> wakeups s \<le> 0 \<longrightarrow>
        wait_finish code rcu s = Inl (Q_ASSERT_X ''QWaitCondition::wait'' ''internal error (wakeups)'')"
    by (simp add: wait_finish_def Let_def)
  from c1 c2 c3 c4 c5 c6 c7 c8 c9 show ?thesis by (intro conjI)
qed

text \<open>
  The theorem at work. Two threads wait and a third calls \<^verbatim>\<open>wakeOne\<close>: from there,
  thread 2 timing out returns false and leaves the counters at 1 and 1, and thread 1 woken
  returns true and leaves them at 1 and 0. A wait on a mutex that finds the counters 2 and
  1 at a return with success returns true and leaves 1 and 0; a wait on a read-write lock
  that finds them at a timeout returns false and leaves 1 and 1. A wait that finds
  \<open>waiters = 0\<close>, or \<open>wakeups = - 1\<close> with success, ends in the failed assertion. Thread
  2 calling wait while thread 1 is suspended, with a \<^verbatim>\<open>wakeOne\<close> of thread 3 before its
  primitive returns: the call fed with what thread 2 finds returns true, as the system
  records, with the counters of the system, 1 and 0.
\<close>

theorem wait_decrements_witness:
  "(case run [WaitQMutex 1 (Some 7) Forever 0, WaitQMutex 2 (Some 7) (Msecs 50) 0, WakeOne 3 0 0 0]
           (constructed 0 0) of
      Ok S \<Rightarrow> waiters (cv S) = 2 \<and> wakeups (cv S) = 1
        \<and> (case step (Return 2 ETIMEDOUT 0) S of
              Ok S' \<Rightarrow> results S' = [(2, False)] \<and> waiters (cv S') = 1 \<and> wakeups (cv S') = 1
            | Abort f \<Rightarrow> False | Impossible \<Rightarrow> False)
        \<and> (case step (Return 1 0 0) S of
              Ok S' \<Rightarrow> results S' = [(1, True)] \<and> waiters (cv S') = 1 \<and> wakeups (cv S') = 0
            | Abort f \<Rightarrow> False | Impossible \<Rightarrow> False)
    | Abort f \<Rightarrow> False
    | Impossible \<Rightarrow> False)
   \<and> (\<exists>s1. wait_QMutex (Some 7) (Msecs 50)
         \<lparr>rc_lock = 0, returns = [\<lparr>rc = 0, waiters_now = 2, wakeups_now = 1\<rparr>], rc_unlock = 0\<rparr>
         (QWaitCondition 0 0) = Some (Inr (True, s1))
       \<and> waiters s1 = 1 \<and> wakeups s1 = 0)
   \<and> (\<exists>s1. wait_QReadWriteLock (Some (9, LockedForRead)) (Msecs 50)
         \<lparr>rc_lock = 0, returns = [\<lparr>rc = ETIMEDOUT, waiters_now = 2, wakeups_now = 1\<rparr>], rc_unlock = 0\<rparr>
         (QWaitCondition 0 0) = Some (Inr (False, s1))
       \<and> waiters s1 = 1 \<and> wakeups s1 = 1)
   \<and> wait_QMutex (Some 7) Forever
         \<lparr>rc_lock = 0, returns = [\<lparr>rc = ETIMEDOUT, waiters_now = 0, wakeups_now = 0\<rparr>], rc_unlock = 0\<rparr>
         (QWaitCondition 0 0)
       = Some (Inl (Q_ASSERT_X ''QWaitCondition::wait'' ''internal error (waiters)''))
   \<and> wait_QMutex (Some 7) Forever
         \<lparr>rc_lock = 0, returns = [\<lparr>rc = 0, waiters_now = 1, wakeups_now = - 1\<rparr>], rc_unlock = 0\<rparr>
         (QWaitCondition 0 0)
       = Some (Inl (Q_ASSERT_X ''QWaitCondition::wait'' ''internal error (wakeups)''))
   \<and> (case run [WaitQMutex 1 (Some 7) Forever 0] (constructed 0 0) of
        Ok S0 \<Rightarrow>
          (case step (WaitQMutex 2 (Some 7) (Msecs 50) 0) S0 of
             Ok T \<Rightarrow>
               found 2 0 [([WakeOne 3 0 0 0], 0)] T = [\<lparr>rc = 0, waiters_now = 2, wakeups_now = 1\<rparr>]
               \<and> (case run (interleaved 2 0 [([WakeOne 3 0 0 0], 0)]) T of
                    Ok S1 \<Rightarrow>
                      results S1 = [(2, True)] \<and> waiters (cv S1) = 1 \<and> wakeups (cv S1) = 0
                      \<and> (\<exists>s1. wait_QMutex (Some 7) (Msecs 50)
                             \<lparr>rc_lock = 0, returns = found 2 0 [([WakeOne 3 0 0 0], 0)] T, rc_unlock = 0\<rparr>
                             (cv S0) = Some (Inr (True, s1))
                           \<and> waiters s1 = 1 \<and> wakeups s1 = 0)
                  | Abort f \<Rightarrow> False | Impossible \<Rightarrow> False)
           | Abort f \<Rightarrow> False | Impossible \<Rightarrow> False)
      | Abort f \<Rightarrow> False
      | Impossible \<Rightarrow> False)
   \<and> wait_finish 0 0 \<lparr>waiters = 0, wakeups = 0, calls = [], diagnostics = []\<rparr>
       = Inl (Q_ASSERT_X ''QWaitCondition::wait'' ''internal error (waiters)'')
   \<and> wait_finish 0 0 \<lparr>waiters = 1, wakeups = 0, calls = [], diagnostics = []\<rparr>
       = Inl (Q_ASSERT_X ''QWaitCondition::wait'' ''internal error (wakeups)'')"
proof -
  let ?es = "[WaitQMutex 1 (Some 7) Forever 0, WaitQMutex 2 (Some 7) (Msecs 50) 0, WakeOne 3 0 0 0]"
  let ?z = "\<lparr>waiters = 0, wakeups = 0, calls = [], diagnostics = []\<rparr>"
  let ?y = "\<lparr>waiters = 1, wakeups = 0, calls = [], diagnostics = []\<rparr>"
  let ?woken = "\<lparr>rc = 0, waiters_now = 2, wakeups_now = 1\<rparr>"
  let ?late = "\<lparr>rc = ETIMEDOUT, waiters_now = 2, wakeups_now = 1\<rparr>"
  let ?none = "\<lparr>rc = ETIMEDOUT, waiters_now = 0, wakeups_now = 0\<rparr>"
  let ?neg = "\<lparr>rc = 0, waiters_now = 1, wakeups_now = - 1\<rparr>"
  let ?segs = "[([WakeOne 3 0 0 0], 0)] :: (event list \<times> code) list"
  have M: "wait_QMutex (Some 7) = wait_QMutex (Some 7) \<and> WaitQMutex 2 (Some 7) = WaitQMutex 2 (Some 7)
      \<or> (LockedForRead = LockedForRead \<or> LockedForRead = LockedForWrite)
        \<and> wait_QMutex (Some 7) = wait_QReadWriteLock (Some (9, LockedForRead))
        \<and> WaitQMutex 2 (Some 7) = WaitQReadWriteLock 2 (Some (9, LockedForRead))"
    by simp
  have R: "wait_QReadWriteLock (Some (9, LockedForRead)) = wait_QMutex (Some 7)
        \<and> WaitQReadWriteLock 2 (Some (9, LockedForRead)) = WaitQMutex 2 (Some 7)
      \<or> (LockedForRead = LockedForRead \<or> LockedForRead = LockedForWrite)
        \<and> wait_QReadWriteLock (Some (9, LockedForRead)) = wait_QReadWriteLock (Some (9, LockedForRead))
        \<and> WaitQReadWriteLock 2 (Some (9, LockedForRead)) = WaitQReadWriteLock 2 (Some (9, LockedForRead))"
    by simp
  note m = wait_decrements [OF M]
  note rw = wait_decrements [OF R]

  obtain S where r: "run ?es (constructed 0 0) = Ok S" and w: "wakeups (cv S) = 1"
    and n: "waiters (cv S) = 2" and p1: "is_parked 1 S" and p2: "is_parked 2 S"
    and e: "results S = []"
    by (simp add: model_defs)
  from m [where es = ?es and rcm = 0 and rcc = 0 and S = S and t = 2 and code = ETIMEDOUT and rcu = 0,
      THEN conjunct2, THEN conjunct2, THEN conjunct2, THEN conjunct1]
    r p2 w n e
  obtain S2 where "step (Return 2 ETIMEDOUT 0) S = Ok S2" and "results S2 = [(2, False)]"
    and "waiters (cv S2) = 1" and "wakeups (cv S2) = 1"
    by (auto simp add: ETIMEDOUT_def)
  moreover from m [where es = ?es and rcm = 0 and rcc = 0 and S = S and t = 1 and code = 0 and rcu = 0,
      THEN conjunct2, THEN conjunct2, THEN conjunct2, THEN conjunct1]
    r p1 w n e
  obtain S1 where "step (Return 1 0 0) S = Ok S1" and "results S1 = [(1, True)]"
    and "waiters (cv S1) = 1" and "wakeups (cv S1) = 0"
    by auto
  ultimately have part1: "case run ?es (constructed 0 0) of
      Ok S \<Rightarrow> waiters (cv S) = 2 \<and> wakeups (cv S) = 1
        \<and> (case step (Return 2 ETIMEDOUT 0) S of
              Ok S' \<Rightarrow> results S' = [(2, False)] \<and> waiters (cv S') = 1 \<and> wakeups (cv S') = 1
            | Abort f \<Rightarrow> False | Impossible \<Rightarrow> False)
        \<and> (case step (Return 1 0 0) S of
              Ok S' \<Rightarrow> results S' = [(1, True)] \<and> waiters (cv S') = 1 \<and> wakeups (cv S') = 0
            | Abort f \<Rightarrow> False | Impossible \<Rightarrow> False)
    | Abort f \<Rightarrow> False
    | Impossible \<Rightarrow> False"
    using r w n by simp

  have part2: "\<exists>s1. wait_QMutex (Some 7) (Msecs 50)
         \<lparr>rc_lock = 0, returns = [?woken], rc_unlock = 0\<rparr> (QWaitCondition 0 0) = Some (Inr (True, s1))
       \<and> waiters s1 = 1 \<and> wakeups s1 = 0"
  proof -
    obtain s1 where c: "wait_QMutex (Some 7) (Msecs 50)
         \<lparr>rc_lock = 0, returns = [?woken], rc_unlock = 0\<rparr> (QWaitCondition 0 0) = Some (Inr (True, s1))"
      by (simp add: local_defs)
    from m [where d = "Msecs 50" and os = "\<lparr>rc_lock = 0, returns = [?woken], rc_unlock = 0\<rparr>"
        and ?s0.0 = "QWaitCondition 0 0" and b = True and s' = s1, THEN conjunct1] c
    obtain pre x rest where "[?woken] = pre @ x # rest"
      and k: "waiters s1 = waiters_now x - 1" "wakeups s1 = wakeups_now x - 1"
      by auto
    then have "x = ?woken" by (auto simp add: Cons_eq_append_conv)
    with k c show ?thesis by simp
  qed

  have part3: "\<exists>s1. wait_QReadWriteLock (Some (9, LockedForRead)) (Msecs 50)
         \<lparr>rc_lock = 0, returns = [?late], rc_unlock = 0\<rparr> (QWaitCondition 0 0) = Some (Inr (False, s1))
       \<and> waiters s1 = 1 \<and> wakeups s1 = 1"
  proof -
    obtain s1 where c: "wait_QReadWriteLock (Some (9, LockedForRead)) (Msecs 50)
         \<lparr>rc_lock = 0, returns = [?late], rc_unlock = 0\<rparr> (QWaitCondition 0 0) = Some (Inr (False, s1))"
      by (simp add: local_defs)
    from rw [where d = "Msecs 50" and os = "\<lparr>rc_lock = 0, returns = [?late], rc_unlock = 0\<rparr>"
        and ?s0.0 = "QWaitCondition 0 0" and b = False and s' = s1, THEN conjunct1] c
    obtain pre x rest where "[?late] = pre @ x # rest"
      and k: "waiters s1 = waiters_now x - 1" "wakeups s1 = wakeups_now x"
      by auto
    then have "x = ?late" by (auto simp add: Cons_eq_append_conv)
    with k c show ?thesis by simp
  qed

  have part4: "wait_QMutex (Some 7) Forever
         \<lparr>rc_lock = 0, returns = [?none], rc_unlock = 0\<rparr> (QWaitCondition 0 0)
       = Some (Inl (Q_ASSERT_X ''QWaitCondition::wait'' ''internal error (waiters)''))"
    using m [where d = Forever and os = "\<lparr>rc_lock = 0, returns = [?none], rc_unlock = 0\<rparr>"
        and ?s0.0 = "QWaitCondition 0 0" and pre = "[]" and r = ?none and rest = "[]",
        THEN conjunct2, THEN conjunct1]
    by (simp add: spurious_def ETIMEDOUT_def)

  have part5: "wait_QMutex (Some 7) Forever
         \<lparr>rc_lock = 0, returns = [?neg], rc_unlock = 0\<rparr> (QWaitCondition 0 0)
       = Some (Inl (Q_ASSERT_X ''QWaitCondition::wait'' ''internal error (wakeups)''))"
    using m [where d = Forever and os = "\<lparr>rc_lock = 0, returns = [?neg], rc_unlock = 0\<rparr>"
        and ?s0.0 = "QWaitCondition 0 0" and pre = "[]" and r = ?neg and rest = "[]",
        THEN conjunct2, THEN conjunct2, THEN conjunct1]
    by (simp add: spurious_def)

  have part6: "case run [WaitQMutex 1 (Some 7) Forever 0] (constructed 0 0) of
        Ok S0 \<Rightarrow>
          (case step (WaitQMutex 2 (Some 7) (Msecs 50) 0) S0 of
             Ok T \<Rightarrow>
               found 2 0 ?segs T = [?woken]
               \<and> (case run (interleaved 2 0 ?segs) T of
                    Ok S1 \<Rightarrow>
                      results S1 = [(2, True)] \<and> waiters (cv S1) = 1 \<and> wakeups (cv S1) = 0
                      \<and> (\<exists>s1. wait_QMutex (Some 7) (Msecs 50)
                             \<lparr>rc_lock = 0, returns = found 2 0 ?segs T, rc_unlock = 0\<rparr>
                             (cv S0) = Some (Inr (True, s1))
                           \<and> waiters s1 = 1 \<and> wakeups s1 = 0)
                  | Abort f \<Rightarrow> False | Impossible \<Rightarrow> False)
           | Abort f \<Rightarrow> False | Impossible \<Rightarrow> False)
      | Abort f \<Rightarrow> False
      | Impossible \<Rightarrow> False"
  proof -
    obtain S0 where r0: "run [WaitQMutex 1 (Some 7) Forever 0] (constructed 0 0) = Ok S0"
      and q0: "parked S0 = [(1, HeldQMutex 7, Forever)]"
      and c0: "waiters (cv S0) = 1" "wakeups (cv S0) = 0" and e0: "results S0 = []"
      by (simp add: model_defs)
    obtain T where st: "step (WaitQMutex 2 (Some 7) (Msecs 50) 0) S0 = Ok T"
      and qT: "parked T = [(1, HeldQMutex 7, Forever), (2, HeldQMutex 7, Msecs 50)]"
      and cT: "waiters (cv T) = 2" "wakeups (cv T) = 0" and eT: "results T = []"
      using q0 c0 e0 by (simp add: is_parked_def)
    obtain S1 where r1: "run (interleaved 2 0 ?segs) T = Ok S1"
      and q1: "\<not> is_parked 2 S1" and e1: "results S1 = [(2, True)]"
      and c1: "waiters (cv S1) = 1" "wakeups (cv S1) = 0"
      using qT cT eT by (simp add: is_parked_def wakeOne_fields wait_finish_def Let_def)
    have fo: "found 2 0 ?segs T = [?woken]"
      using qT cT by (simp add: is_parked_def wakeOne_fields wait_finish_def Let_def)
    have o: "\<forall>(evs, c)\<in>set ?segs. \<forall>e\<in>set evs. caller e \<noteq> 2" by simp
    from m [where es = "[WaitQMutex 1 (Some 7) Forever 0]" and rcm = 0 and rcc = 0 and ?S0.0 = S0
        and d = "Msecs 50" and rcl = 0 and T = T and segs = ?segs and rcu = 0 and ?S1.0 = S1,
        THEN conjunct2, THEN conjunct2, THEN conjunct2, THEN conjunct2, THEN conjunct2, THEN conjunct2, THEN conjunct1]
      r0 st o r1 q1
    obtain b1 s1 where "wait_QMutex (Some 7) (Msecs 50)
          \<lparr>rc_lock = 0, returns = found 2 0 ?segs T, rc_unlock = 0\<rparr> (cv S0) = Some (Inr (b1, s1))"
      and "waiters s1 = waiters (cv S1)" and "wakeups s1 = wakeups (cv S1)"
      and "last (results S1) = (2, b1)"
      by blast
    with e1 c1 have "\<exists>s1. wait_QMutex (Some 7) (Msecs 50)
          \<lparr>rc_lock = 0, returns = found 2 0 ?segs T, rc_unlock = 0\<rparr> (cv S0) = Some (Inr (True, s1))
         \<and> waiters s1 = 1 \<and> wakeups s1 = 0"
      by auto
    with r0 st r1 fo e1 c1 show ?thesis by simp
  qed

  from m [where code = 0 and rcu = 0 and s = ?z, THEN conjunct2, THEN conjunct2, THEN conjunct2, THEN conjunct2, THEN conjunct2, THEN conjunct2, THEN conjunct2, THEN conjunct1]
  have part7: "wait_finish 0 0 ?z = Inl (Q_ASSERT_X ''QWaitCondition::wait'' ''internal error (waiters)'')"
    by simp
  from m [where code = 0 and rcu = 0 and s = ?y, THEN conjunct2, THEN conjunct2, THEN conjunct2, THEN conjunct2, THEN conjunct2, THEN conjunct2, THEN conjunct2, THEN conjunct2]
  have part8: "wait_finish 0 0 ?y = Inl (Q_ASSERT_X ''QWaitCondition::wait'' ''internal error (wakeups)'')"
    by simp
  from part1 part2 part3 part4 part5 part6 part7 part8 show ?thesis by (intro conjI)
qed

end
